theory Spec2Isabelle
  imports Main "HOL-Library.Word"
begin

section \<open>The task store of projecttt.cpp\<close>

text \<open>
  The C++ type \<open>int\<close> is a 32-bit two's complement integer: a \<open>32 word\<close> read through
  \<open>sint\<close>. Addition wraps around, which is what the usual targets do on signed overflow.
\<close>

type_synonym i32 = "32 word"

text \<open>
  A \<open>Node*\<close> is an address. The heap of nodes is a function from addresses to node
  contents; \<open>new\<close> hands out the addresses in increasing order (\<open>brk\<close> is the next one).
  The field \<open>next\<close> of a node is represented through the list \<open>head\<close> of the store: the
  addresses of the nodes reached from \<open>head\<close> along \<open>next\<close>, in traversal order, \<open>[]\<close> for
  \<open>nullptr\<close>. The field \<open>id\<close> is called \<open>taskId\<close> here, as in the class variant of the program.
\<close>

type_synonym addr = nat

record Node =
  taskId :: i32
  description :: string
  priority :: i32
  completed :: bool

record ToDoData =
  nodes :: "addr \<Rightarrow> Node"
  brk :: addr
  head :: "addr list"
  taskMap :: "i32 \<rightharpoonup> addr"
  deletedStack :: "addr list"
  nextId :: i32
  totalTasks :: i32

text \<open>The lines the program prints, one constructor for each.\<close>

datatype msg =
    DescriptionEmpty
  | TaskAdded i32
  | TaskNotFound
  | CurrentDescription string
  | AskDescription
  | CurrentPriority i32
  | AskPriority
  | InputInvalid
  | PriorityInvalid
  | TaskUpdated i32
  | TaskDeleted
  | NothingToUndo
  | TaskRestored i32
  | TaskFound Node
  | TaskMarked i32 bool
  | NoTasks
  | SaveFailed
  | TasksSaved

text \<open>The constructor \<open>ToDoData()\<close>: no node, \<open>nextId = 1\<close>, \<open>totalTasks = 0\<close>.\<close>

definition ToDoData_init :: ToDoData where
  "ToDoData_init =
     \<lparr>nodes = (\<lambda>_. \<lparr>taskId = 0, description = [], priority = 0, completed = False\<rparr>),
      brk = 0, head = [], taskMap = Map.empty, deletedStack = [],
      nextId = 1, totalTasks = 0\<rparr>"

text \<open>\<open>std::max\<close> on \<open>int\<close>: \<open>(a < b) ? b : a\<close>.\<close>

definition max_i32 :: "i32 \<Rightarrow> i32 \<Rightarrow> i32" where
  "max_i32 a b = (if sint a < sint b then b else a)"

subsection \<open>addTask\<close>

definition addTask :: "ToDoData \<Rightarrow> string \<Rightarrow> i32 \<Rightarrow> msg list \<times> ToDoData" where
  "addTask data desc prio =
     (if desc = [] then ([DescriptionEmpty], data)
      else
        let pr = (if sint prio < 1 \<or> 5 < sint prio then 1 else prio);
            newNode = brk data
        in ([TaskAdded (nextId data)],
            data\<lparr>nodes := (nodes data)(newNode :=
                     \<lparr>taskId = nextId data, description = desc, priority = pr,
                      completed = False\<rparr>),
                 brk := Suc (brk data),
                 head := head data @ [newNode],
                 taskMap := (taskMap data)(nextId data \<mapsto> newNode),
                 nextId := nextId data + 1,
                 totalTasks := totalTasks data + 1\<rparr>))"

subsection \<open>editTask\<close>

text \<open>
  The two reads from \<open>cin\<close> are parameters: \<open>newDesc\<close> is the line read by \<open>getline\<close>,
  \<open>newPrio\<close> is what \<open>cin >> newPrio\<close> extracts, \<open>None\<close> when the extraction fails.
\<close>

definition editTask ::
  "ToDoData \<Rightarrow> i32 \<Rightarrow> string \<Rightarrow> i32 option \<Rightarrow> msg list \<times> ToDoData" where
  "editTask data i newDesc newPrio =
     (case taskMap data i of
        None \<Rightarrow> ([TaskNotFound], data)
      | Some t \<Rightarrow>
          let n0 = nodes data t;
              n1 = (if newDesc \<noteq> [] then n0\<lparr>description := newDesc\<rparr> else n0);
              out1 = [CurrentDescription (description n0), AskDescription,
                      CurrentPriority (priority n1), AskPriority]
          in (case newPrio of
                None \<Rightarrow>
                  (out1 @ [InputInvalid, TaskUpdated i],
                   data\<lparr>nodes := (nodes data)(t := n1)\<rparr>)
              | Some p \<Rightarrow>
                  if 1 \<le> sint p \<and> sint p \<le> 5
                  then (out1 @ [TaskUpdated i],
                        data\<lparr>nodes := (nodes data)(t := n1\<lparr>priority := p\<rparr>)\<rparr>)
                  else if p \<noteq> 0
                  then (out1 @ [PriorityInvalid, TaskUpdated i],
                        data\<lparr>nodes := (nodes data)(t := n1)\<rparr>)
                  else (out1 @ [TaskUpdated i],
                        data\<lparr>nodes := (nodes data)(t := n1)\<rparr>)))"

subsection \<open>deleteTask\<close>

text \<open>
  The loop \<open>while (cur && cur->id != id)\<close> stops at the first node of the chain with the
  identifier; the node is then unlinked. \<open>detach\<close> returns that node and the chain without
  it, \<open>None\<close> when the loop runs off the end.
\<close>

fun detach :: "(addr \<Rightarrow> Node) \<Rightarrow> i32 \<Rightarrow> addr list \<Rightarrow> (addr \<times> addr list) option" where
  "detach h i [] = None"
| "detach h i (cur # rest) =
     (if taskId (h cur) = i then Some (cur, rest)
      else (case detach h i rest of
              None \<Rightarrow> None
            | Some (c, rest') \<Rightarrow> Some (c, cur # rest')))"

text \<open>
  The copy pushed on the stack is a new node with the four fields of the deleted one.
  \<open>delete cur\<close> gives the cell back; nothing refers to it afterwards and the allocator of
  the model does not hand it out again.
\<close>

definition deleteTask :: "ToDoData \<Rightarrow> i32 \<Rightarrow> msg list \<times> ToDoData" where
  "deleteTask data i =
     (case taskMap data i of
        None \<Rightarrow> ([TaskNotFound], data)
      | Some _ \<Rightarrow>
          (case detach (nodes data) i (head data) of
             None \<Rightarrow> ([], data)
           | Some (cur, rest) \<Rightarrow>
               let copyNode = brk data
               in ([TaskDeleted],
                   data\<lparr>nodes := (nodes data)(copyNode := nodes data cur),
                        brk := Suc (brk data),
                        head := rest,
                        deletedStack := copyNode # deletedStack data,
                        taskMap := (taskMap data)(i := None),
                        totalTasks := totalTasks data - 1\<rparr>)))"

subsection \<open>undoDelete\<close>

definition undoDelete :: "ToDoData \<Rightarrow> msg list \<times> ToDoData" where
  "undoDelete data =
     (case deletedStack data of
        [] \<Rightarrow> ([NothingToUndo], data)
      | restored # below \<Rightarrow>
          let rid = taskId (nodes data restored)
          in ([TaskRestored rid],
              data\<lparr>deletedStack := below,
                   head := restored # head data,
                   taskMap := (taskMap data)(rid \<mapsto> restored),
                   totalTasks := totalTasks data + 1,
                   nextId := max_i32 (nextId data) (rid + 1)\<rparr>))"

subsection \<open>searchTask, markComplete, printAll\<close>

definition searchTask :: "ToDoData \<Rightarrow> i32 \<Rightarrow> msg list" where
  "searchTask data i =
     (case taskMap data i of
        None \<Rightarrow> [TaskNotFound]
      | Some t \<Rightarrow> [TaskFound (nodes data t)])"

definition markComplete :: "ToDoData \<Rightarrow> i32 \<Rightarrow> bool \<Rightarrow> msg list \<times> ToDoData" where
  "markComplete data i done =
     (case taskMap data i of
        None \<Rightarrow> ([TaskNotFound], data)
      | Some t \<Rightarrow>
          ([TaskMarked i done],
           data\<lparr>nodes := (nodes data)(t := (nodes data t)\<lparr>completed := done\<rparr>)\<rparr>))"

text \<open>The nodes in display order, as \<open>printAll\<close> walks them.\<close>

definition listAll :: "ToDoData \<Rightarrow> Node list" where
  "listAll data = map (nodes data) (head data)"

definition printAll :: "ToDoData \<Rightarrow> msg list" where
  "printAll data = (if head data = [] then [NoTasks] else map TaskFound (listAll data))"

subsection \<open>saveToFile\<close>

text \<open>
  \<open>operator<<\<close> on an \<open>int\<close> writes its decimal digits, with a minus sign when it is
  negative.
\<close>

definition digit_char :: "nat \<Rightarrow> char" where
  "digit_char d = ''0123456789'' ! d"

fun show_nat :: "nat \<Rightarrow> string" where
  "show_nat n =
     (if n < 10 then [digit_char n] else show_nat (n div 10) @ [digit_char (n mod 10)])"

declare show_nat.simps [simp del]

definition show_int :: "int \<Rightarrow> string" where
  "show_int v = (if v < 0 then CHR ''-'' # show_nat (nat (- v)) else show_nat (nat v))"

definition show_i32 :: "i32 \<Rightarrow> string" where
  "show_i32 w = show_int (sint w)"

text \<open>
  The loop \<open>while ((pos = desc.find('|')) != npos) desc.replace(pos, 1, " ")\<close> turns every
  bar of the description into a space, the leftmost first.
\<close>

fun sanitize :: "string \<Rightarrow> string" where
  "sanitize [] = []"
| "sanitize (c # cs) = (if c = CHR ''|'' then CHR '' '' # sanitize cs else c # sanitize cs)"

definition save_line :: "Node \<Rightarrow> string" where
  "save_line n =
     show_i32 (taskId n) @ ''|'' @ sanitize (description n) @ ''|'' @
     show_i32 (priority n) @ ''|'' @ (if completed n then ''1'' else ''0'') @ [CHR 0x0A]"

text \<open>
  \<open>opened\<close> says whether the output stream could be opened. The second component is what
  the file holds afterwards, \<open>None\<close> when nothing was written.
\<close>

definition saveToFile :: "ToDoData \<Rightarrow> bool \<Rightarrow> msg list \<times> string option" where
  "saveToFile data opened =
     (if \<not> opened then ([SaveFailed], None)
      else ([TasksSaved], Some (concat (map save_line (listAll data)))))"

subsection \<open>loadFromFile\<close>

text \<open>
  \<open>std::stoi\<close>: \<open>strtol\<close> in base 10 skips leading white space, takes an optional sign and
  the longest run of digits, and ignores what follows; \<open>stoi\<close> throws
  \<open>invalid_argument\<close> when there is no digit and \<open>out_of_range\<close> when the value does not
  fit an \<open>int\<close>.
\<close>

datatype exn = invalid_argument | out_of_range

definition isspace :: "char \<Rightarrow> bool" where
  "isspace c \<longleftrightarrow> c \<in> set [CHR '' '', CHR 0x09, CHR 0x0A, CHR 0x0B, CHR 0x0C, CHR 0x0D]"

definition isdigit :: "char \<Rightarrow> bool" where
  "isdigit c \<longleftrightarrow> c \<in> set ''0123456789''"

definition digit_val :: "char \<Rightarrow> int" where
  "digit_val c = int (of_char c) - 48"

definition digits_val :: "string \<Rightarrow> int" where
  "digits_val ds = foldl (\<lambda>acc c. acc * 10 + digit_val c) 0 ds"

definition stoi :: "string \<Rightarrow> exn + i32" where
  "stoi str =
     (let s1 = dropWhile isspace str;
          neg = (s1 \<noteq> [] \<and> hd s1 = CHR ''-'');
          s2 = (if s1 \<noteq> [] \<and> (hd s1 = CHR ''-'' \<or> hd s1 = CHR ''+'') then tl s1 else s1);
          ds = takeWhile isdigit s2
      in if ds = [] then Inl invalid_argument
         else
           let v = (if neg then - digits_val ds else digits_val ds)
           in if v < - (2 ^ 31) \<or> 2 ^ 31 - 1 < v then Inl out_of_range
              else Inr (word_of_int v))"

text \<open>
  \<open>line.find(c, pos)\<close> is \<open>None\<close> for \<open>npos\<close>. \<open>npos\<close> is the largest \<open>size_t\<close>, so
  \<open>npos + 1\<close> is 0: \<open>after\<close> is the \<open>p + 1\<close> of the source.
\<close>

definition find_from :: "char \<Rightarrow> nat \<Rightarrow> string \<Rightarrow> nat option" where
  "find_from c pos str =
     (if c \<in> set (drop pos str)
      then Some (pos + length (takeWhile (\<lambda>x. x \<noteq> c) (drop pos str)))
      else None)"

definition after :: "nat option \<Rightarrow> nat" where
  "after p = (case p of None \<Rightarrow> 0 | Some k \<Rightarrow> k + 1)"

text \<open>\<open>str.substr(pos, len)\<close> and \<open>str.substr(pos)\<close>, for \<open>pos\<close> within the string.\<close>

definition substr :: "string \<Rightarrow> nat \<Rightarrow> nat \<Rightarrow> string" where
  "substr str pos len = take len (drop pos str)"

definition substr_from :: "string \<Rightarrow> nat \<Rightarrow> string" where
  "substr_from str pos = drop pos str"

text \<open>The node of a parsed line goes to the end of the chain and into the index.\<close>

definition load_node :: "ToDoData \<Rightarrow> i32 \<Rightarrow> string \<Rightarrow> i32 \<Rightarrow> i32 \<Rightarrow> ToDoData" where
  "load_node data i desc prio done =
     (let n = brk data
      in data\<lparr>nodes := (nodes data)(n :=
                  \<lparr>taskId = i, description = desc, priority = prio, completed = (done \<noteq> 0)\<rparr>),
              brk := Suc (brk data),
              head := head data @ [n],
              taskMap := (taskMap data)(i \<mapsto> n),
              nextId := max_i32 (nextId data) (i + 1),
              totalTasks := totalTasks data + 1\<rparr>)"

text \<open>One turn of the loop body: \<open>Inl\<close> is the exception that leaves it.\<close>

definition load_line :: "ToDoData \<Rightarrow> string \<Rightarrow> exn + ToDoData" where
  "load_line data line =
     (if line = [] then Inr data
      else
        let p1 = find_from CHR ''|'' 0 line;
            p2 = find_from CHR ''|'' (after p1) line;
            p3 = find_from CHR ''|'' (after p2) line
        in (case (p1, p2, p3) of
              (Some q1, Some q2, Some q3) \<Rightarrow>
                (case stoi (substr line 0 q1) of
                   Inl e \<Rightarrow> Inl e
                 | Inr i \<Rightarrow>
                     let desc = substr line (q1 + 1) (q2 - q1 - 1)
                     in (case stoi (substr line (q2 + 1) (q3 - q2 - 1)) of
                           Inl e \<Rightarrow> Inl e
                         | Inr prio \<Rightarrow>
                             (case stoi (substr_from line (q3 + 1)) of
                                Inl e \<Rightarrow> Inl e
                              | Inr done \<Rightarrow> Inr (load_node data i desc prio done))))
            | _ \<Rightarrow> Inr data))"

text \<open>
  The loop over the lines. An exception leaves the function with the store as the earlier
  lines made it: the result \<open>Inl\<close> carries both.
\<close>

fun load_lines :: "ToDoData \<Rightarrow> string list \<Rightarrow> (exn \<times> ToDoData) + ToDoData" where
  "load_lines data [] = Inr data"
| "load_lines data (line # rest) =
     (case load_line data line of
        Inl e \<Rightarrow> Inl (e, data)
      | Inr data' \<Rightarrow> load_lines data' rest)"

text \<open>
  \<open>getline\<close> until it fails: the pieces between line feeds; what follows the last line
  feed is a line when it is not empty. \<open>acc\<close> holds the current line, reversed.
\<close>

fun getlines_from :: "string \<Rightarrow> string \<Rightarrow> string list" where
  "getlines_from acc [] = (if acc = [] then [] else [rev acc])"
| "getlines_from acc (c # cs) =
     (if c = CHR 0x0A then rev acc # getlines_from [] cs else getlines_from (c # acc) cs)"

definition getlines :: "string \<Rightarrow> string list" where
  "getlines content = getlines_from [] content"

text \<open>\<open>file\<close> is the content of the file, \<open>None\<close> when it cannot be opened.\<close>

definition loadFromFile :: "ToDoData \<Rightarrow> string option \<Rightarrow> (exn \<times> ToDoData) + ToDoData" where
  "loadFromFile data file =
     (case file of
        None \<Rightarrow> Inr data
      | Some content \<Rightarrow> load_lines data (getlines content))"

section \<open>The class variant of the program\<close>

text \<open>
  The second source file holds the same store as a class \<open>ToDoList\<close>, without the undo
  stack: \<open>head\<close>, \<open>hashTable\<close>, \<open>taskCounter\<close> and \<open>size\<close>. Its nodes have the same fields.
\<close>

record ToDoList =
  nodes_l :: "addr \<Rightarrow> Node"
  brk_l :: addr
  head_l :: "addr list"
  hashTable :: "i32 \<rightharpoonup> addr"
  taskCounter :: i32
  size_l :: i32

datatype msg_l =
    DescriptionEmpty_l
  | PrioritySetTo1
  | TaskAdded_l i32
  | TaskNotFound_l
  | TaskDetails Node

definition ToDoList_init :: ToDoList where
  "ToDoList_init =
     \<lparr>nodes_l = (\<lambda>_. \<lparr>taskId = 0, description = [], priority = 0, completed = False\<rparr>),
      brk_l = 0, head_l = [], hashTable = Map.empty, taskCounter = 1, size_l = 0\<rparr>"

definition addTask_l :: "ToDoList \<Rightarrow> string \<Rightarrow> i32 \<Rightarrow> msg_l list \<times> ToDoList" where
  "addTask_l l desc prio =
     (if desc = [] then ([DescriptionEmpty_l], l)
      else
        let clamp = (sint prio < 1 \<or> 5 < sint prio);
            pr = (if clamp then 1 else prio);
            tid = taskCounter l;
            newNode = brk_l l
        in ((if clamp then [PrioritySetTo1] else []) @ [TaskAdded_l tid],
            l\<lparr>nodes_l := (nodes_l l)(newNode :=
                  \<lparr>taskId = tid, description = desc, priority = pr, completed = False\<rparr>),
              brk_l := Suc (brk_l l),
              hashTable := (hashTable l)(tid \<mapsto> newNode),
              head_l := head_l l @ [newNode],
              taskCounter := taskCounter l + 1,
              size_l := size_l l + 1\<rparr>))"

definition searchTask_l :: "ToDoList \<Rightarrow> i32 \<Rightarrow> msg_l list" where
  "searchTask_l l i =
     (case hashTable l i of
        None \<Rightarrow> [TaskNotFound_l]
      | Some t \<Rightarrow> [TaskDetails (nodes_l l t)])"

definition listAll_l :: "ToDoList \<Rightarrow> Node list" where
  "listAll_l l = map (nodes_l l) (head_l l)"

section \<open>Specification predicates\<close>

text \<open>The number of delimiters in a line of the file.\<close>

definition bars :: "string \<Rightarrow> nat" where
  "bars line = length (filter (\<lambda>c. c = CHR ''|'') line)"

text \<open>
  The chain and the index hold the same nodes: the chain visits no node twice, every node
  of the chain is in the index under its identifier, every entry of the index is a node of
  the chain filed under its own identifier, and no two nodes of the chain share an
  identifier.
\<close>

definition sync :: "ToDoData \<Rightarrow> bool" where
  "sync s \<longleftrightarrow>
     distinct (head s) \<and>
     (\<forall>a \<in> set (head s). taskMap s (taskId (nodes s a)) = Some a) \<and>
     (\<forall>i a. taskMap s i = Some a \<longrightarrow> a \<in> set (head s) \<and> taskId (nodes s a) = i) \<and>
     (\<forall>a \<in> set (head s). \<forall>b \<in> set (head s).
        taskId (nodes s a) = taskId (nodes s b) \<longrightarrow> a = b)"

text \<open>
  The same statement about an identifier function \<open>f\<close>, a chain \<open>xs\<close> and an index
  \<open>m\<close> on their own; the last part of \<open>sync\<close> follows from the others.
\<close>

definition agree :: "(addr \<Rightarrow> i32) \<Rightarrow> addr list \<Rightarrow> (i32 \<rightharpoonup> addr) \<Rightarrow> bool" where
  "agree f xs m \<longleftrightarrow>
     distinct xs \<and> (\<forall>a \<in> set xs. m (f a) = Some a) \<and>
     (\<forall>i a. m i = Some a \<longrightarrow> a \<in> set xs \<and> f a = i)"

text \<open>
  The identifiers in use: those of the tasks of the chain and those of the deleted tasks
  kept for undo. They are pairwise different and below \<open>nextId\<close>.
\<close>

definition ids :: "ToDoData \<Rightarrow> i32 list" where
  "ids s = map (\<lambda>a. taskId (nodes s a)) (head s @ deletedStack s)"

definition ids_below :: "ToDoData \<Rightarrow> bool" where
  "ids_below s \<longleftrightarrow> distinct (ids s) \<and> (\<forall>i \<in> set (ids s). sint i < sint (nextId s))"

text \<open>No node is both in the chain and on the stack, or twice in them, and all are allocated.\<close>

definition alloc_ok :: "ToDoData \<Rightarrow> bool" where
  "alloc_ok s \<longleftrightarrow>
     distinct (head s @ deletedStack s) \<and> (\<forall>a \<in> set (head s @ deletedStack s). a < brk s)"

definition store_inv :: "ToDoData \<Rightarrow> bool" where
  "store_inv s \<longleftrightarrow> sync s \<and> ids_below s \<and> alloc_ok s"

text \<open>
  The part of it that does not speak of \<open>nextId\<close>, and a weaker bound that lets a task
  carry the largest \<open>int\<close> as its identifier: \<open>nextId\<close> cannot be above that one.
\<close>

definition linked :: "ToDoData \<Rightarrow> bool" where
  "linked s \<longleftrightarrow> sync s \<and> distinct (ids s) \<and> alloc_ok s"

definition ids_fit :: "ToDoData \<Rightarrow> bool" where
  "ids_fit s \<longleftrightarrow> (\<forall>i \<in> set (ids s). sint i < sint (nextId s) \<or> sint i = 2147483647)"

definition store_ok :: "ToDoData \<Rightarrow> bool" where
  "store_ok s \<longleftrightarrow> linked s \<and> ids_fit s"

text \<open>
  The identifier a line of the file carries: what \<open>stoi\<close> reads in front of the first
  delimiter, for a line with three delimiters.
\<close>

definition line_key :: "string \<Rightarrow> i32 option" where
  "line_key line =
     (if bars line < 3 then None
      else (case stoi (takeWhile (\<lambda>c. c \<noteq> CHR ''|'') line) of
              Inl _ \<Rightarrow> None
            | Inr i \<Rightarrow> Some i))"

definition file_keys :: "string option \<Rightarrow> i32 list" where
  "file_keys file =
     (case file of None \<Rightarrow> [] | Some content \<Rightarrow> List.map_filter line_key (getlines content))"

text \<open>The store a call of \<open>loadFromFile\<close> leaves behind, whether it returns or throws.\<close>

definition store_after :: "(exn \<times> ToDoData) + ToDoData \<Rightarrow> ToDoData" where
  "store_after r = (case r of Inl (e, s) \<Rightarrow> s | Inr s \<Rightarrow> s)"

text \<open>
  The menu loop of \<open>main\<close> calls the operations one after the other on the same store.
  \<open>run\<close> does so for a list of requests to add, delete and undo, and collects what is
  printed; \<open>issued\<close> picks the identifiers that \<open>addTask\<close> announced.
\<close>

datatype op = Add string i32 | Delete i32 | Undo

fun exec :: "ToDoData \<Rightarrow> op \<Rightarrow> msg list \<times> ToDoData" where
  "exec s (Add d p) = addTask s d p"
| "exec s (Delete i) = deleteTask s i"
| "exec s Undo = undoDelete s"

fun run :: "ToDoData \<Rightarrow> op list \<Rightarrow> msg list \<times> ToDoData" where
  "run s [] = ([], s)"
| "run s (x # xs) =
     (case exec s x of
        (out, s1) \<Rightarrow> (case run s1 xs of (outs, s2) \<Rightarrow> (out @ outs, s2)))"

fun issued :: "msg list \<Rightarrow> i32 list" where
  "issued [] = []"
| "issued (TaskAdded i # ms) = i # issued ms"
| "issued (m # ms) = issued ms"


text \<open>The priority \<open>addTask\<close> stores for the priority it is given.\<close>

definition effective_priority :: "i32 \<Rightarrow> i32" where
  "effective_priority p = (if sint p < 1 \<or> 5 < sint p then 1 else p)"

text \<open>
  The class variant next to the first one: \<open>as_data\<close> reads a \<open>ToDoList\<close> as a store
  with an empty undo stack, \<open>addAll_l\<close> calls \<open>addTask\<close> for a list of descriptions and
  priorities, as \<open>main\<close> does for its sample tasks, and \<open>issued_l\<close> picks the identifiers
  announced.
\<close>

definition as_data :: "ToDoList \<Rightarrow> ToDoData" where
  "as_data l =
     \<lparr>nodes = nodes_l l, brk = brk_l l, head = head_l l, taskMap = hashTable l,
      deletedStack = [], nextId = taskCounter l, totalTasks = size_l l\<rparr>"

fun addAll_l :: "ToDoList \<Rightarrow> (string \<times> i32) list \<Rightarrow> msg_l list \<times> ToDoList" where
  "addAll_l l [] = ([], l)"
| "addAll_l l ((d, p) # ts) =
     (case addTask_l l d p of
        (out, l1) \<Rightarrow> (case addAll_l l1 ts of (outs, l2) \<Rightarrow> (out @ outs, l2)))"

fun issued_l :: "msg_l list \<Rightarrow> i32 list" where
  "issued_l [] = []"
| "issued_l (TaskAdded_l i # ms) = i # issued_l ms"
| "issued_l (m # ms) = issued_l ms"

text \<open>
  What \<open>saveToFile\<close> writes for a node, without the line feed, and the node that
  \<open>loadFromFile\<close> builds from it.
\<close>

definition record_of :: "Node \<Rightarrow> string" where
  "record_of n =
     show_i32 (taskId n) @ CHR ''|'' # sanitize (description n) @ CHR ''|'' #
     show_i32 (priority n) @ CHR ''|'' # (if completed n then ''1'' else ''0'')"

definition reloaded :: "Node \<Rightarrow> Node" where
  "reloaded n = n\<lparr>description := sanitize (description n)\<rparr>"

text \<open>The store after the loop of \<open>loadFromFile\<close> has read the records of a list of nodes.\<close>

fun load_nodes :: "ToDoData \<Rightarrow> Node list \<Rightarrow> ToDoData" where
  "load_nodes s [] = s"
| "load_nodes s (n # ns) =
     load_nodes
       (load_node s (taskId n) (sanitize (description n)) (priority n)
          (if completed n then 1 else 0)) ns"

section \<open>Auxiliary facts\<close>

subsection \<open>Parsing a line\<close>


lemma find_from_hit:
  "c \<notin> set f \<Longrightarrow> length pre = pos \<Longrightarrow> find_from c pos (pre @ f @ c # rest) = Some (pos + length f)"
  by (simp add: find_from_def takeWhile_append)

lemma find_from_miss:
  "c \<notin> set (drop pos str) \<Longrightarrow> find_from c pos str = None"
  by (simp add: find_from_def)

lemma drop_len: "n = length pre \<Longrightarrow> drop n (pre @ xs) = xs"
  by simp

lemma load_line_fields:
  assumes "CHR ''|'' \<notin> set f0" "CHR ''|'' \<notin> set f1" "CHR ''|'' \<notin> set f2"
  shows "load_line data (f0 @ CHR ''|'' # f1 @ CHR ''|'' # f2 @ CHR ''|'' # f3) =
     (case stoi f0 of
        Inl e \<Rightarrow> Inl e
      | Inr i \<Rightarrow>
          (case stoi f2 of
             Inl e \<Rightarrow> Inl e
           | Inr p \<Rightarrow>
               (case stoi f3 of
                  Inl e \<Rightarrow> Inl e
                | Inr d \<Rightarrow> Inr (load_node data i f1 p d))))"
proof -
  let ?l = "f0 @ CHR ''|'' # f1 @ CHR ''|'' # f2 @ CHR ''|'' # f3"
  have p1: "find_from CHR ''|'' 0 ?l = Some (length f0)"
    using find_from_hit [of "CHR ''|''" f0 "[]" 0 "f1 @ CHR ''|'' # f2 @ CHR ''|'' # f3"] assms
    by simp
  have p2: "find_from CHR ''|'' (Suc (length f0)) ?l = Some (Suc (length f0 + length f1))"
    using find_from_hit [of "CHR ''|''" f1 "f0 @ [CHR ''|'']" "Suc (length f0)" "f2 @ CHR ''|'' # f3"] assms
    by simp
  have p3: "find_from CHR ''|'' (Suc (Suc (length f0 + length f1))) ?l
            = Some (Suc (Suc (length f0 + length f1 + length f2)))"
    using find_from_hit [of "CHR ''|''" f2 "f0 @ CHR ''|'' # f1 @ [CHR ''|'']"
        "Suc (Suc (length f0 + length f1))" f3] assms
    by simp
  have s0: "substr ?l 0 (length f0) = f0"
    by (simp add: substr_def)
  have s1: "substr ?l (length f0 + 1) (Suc (length f0 + length f1) - length f0 - 1) = f1"
    by (simp add: substr_def)
  have s2: "substr ?l (Suc (length f0 + length f1) + 1)
              (Suc (Suc (length f0 + length f1 + length f2)) - Suc (length f0 + length f1) - 1)
            = f2"
    using drop_len [of "Suc (Suc (length f0 + length f1))" "f0 @ CHR ''|'' # f1 @ [CHR ''|'']"
        "f2 @ CHR ''|'' # f3"]
    by (simp add: substr_def)
  have s3: "substr_from ?l (Suc (Suc (length f0 + length f1 + length f2)) + 1) = f3"
    using drop_len [of "Suc (Suc (Suc (length f0 + length f1 + length f2)))"
        "f0 @ CHR ''|'' # f1 @ CHR ''|'' # f2 @ [CHR ''|'']" f3]
    by (simp add: substr_from_def)
  have "load_line data ?l =
     (case stoi (substr ?l 0 (length f0)) of
        Inl e \<Rightarrow> Inl e
      | Inr i \<Rightarrow>
          let desc = substr ?l (length f0 + 1) (Suc (length f0 + length f1) - length f0 - 1)
          in (case stoi (substr ?l (Suc (length f0 + length f1) + 1)
                  (Suc (Suc (length f0 + length f1 + length f2)) -
                   Suc (length f0 + length f1) - 1)) of
                Inl e \<Rightarrow> Inl e
              | Inr prio \<Rightarrow>
                  (case stoi (substr_from ?l
                        (Suc (Suc (length f0 + length f1 + length f2)) + 1)) of
                     Inl e \<Rightarrow> Inl e
                   | Inr done \<Rightarrow> Inr (load_node data i desc prio done))))"
    by (simp add: load_line_def p1 p2 p3 after_def Let_def)
  then show ?thesis
    unfolding s0 s1 s2 s3 Let_def .
qed

lemma bars_split:
  "length (filter (\<lambda>c. c = x) str) \<ge> Suc n \<Longrightarrow>
   \<exists>f rest. str = f @ x # rest \<and> x \<notin> set f \<and> length (filter (\<lambda>c. c = x) rest) \<ge> n"
proof (induction str)
  case Nil
  then show ?case by simp
next
  case (Cons c cs)
  show ?case
  proof (cases "c = x")
    case True
    with Cons.prems show ?thesis by (intro exI [of _ "[]"] exI [of _ cs]) simp
  next
    case False
    with Cons obtain f rest where "cs = f @ x # rest" "x \<notin> set f"
      "length (filter (\<lambda>c. c = x) rest) \<ge> n" by auto
    with False show ?thesis by (intro exI [of _ "c # f"] exI [of _ rest]) simp
  qed
qed




lemma find_from_count:
  assumes "find_from c pos str = Some k"
  shows "length (filter (\<lambda>x. x = c) (drop pos str)) =
         Suc (length (filter (\<lambda>x. x = c) (drop (Suc k) str)))"
proof -
  let ?r = "drop pos str"
  let ?f = "takeWhile (\<lambda>x. x \<noteq> c) ?r"
  from assms have mem: "c \<in> set ?r" and k: "k = pos + length ?f"
    by (auto simp: find_from_def split: if_splits)
  from mem have dw: "dropWhile (\<lambda>x. x \<noteq> c) ?r \<noteq> []" by simp
  then have hd: "hd (dropWhile (\<lambda>x. x \<noteq> c) ?r) = c"
    using hd_dropWhile [of "\<lambda>x. x \<noteq> c" ?r] by simp
  from dw hd obtain rest where rest: "dropWhile (\<lambda>x. x \<noteq> c) ?r = c # rest"
    by (cases "dropWhile (\<lambda>x. x \<noteq> c) ?r") auto
  have split: "?r = ?f @ c # rest"
    using takeWhile_dropWhile_id [of "\<lambda>x. x \<noteq> c" ?r] rest by simp
  have "drop (Suc k) str = drop (Suc (length ?f)) ?r"
    by (simp add: k add.commute)
  also have "\<dots> = rest"
    by (subst split) simp
  finally have d: "drop (Suc k) str = rest" .
  have nof: "filter (\<lambda>x. x = c) ?f = []"
    by (rule filter_False) (auto dest: set_takeWhileD)
  have "filter (\<lambda>x. x = c) ?r = filter (\<lambda>x. x = c) (?f @ c # rest)"
    using split by simp
  then show ?thesis
    by (simp add: nof d)
qed

lemma filter_drop_le:
  "length (filter P (drop n xs)) \<le> length (filter P xs)"
proof -
  have "length (filter P xs) = length (filter P (take n xs)) + length (filter P (drop n xs))"
    by (metis append_take_drop_id filter_append length_append)
  then show ?thesis by simp
qed

lemma load_line_few_bars:
  assumes "bars line < 3"
  shows "load_line data line = Inr data"
proof (cases "line = []")
  case True
  then show ?thesis by (simp add: load_line_def)
next
  case False
  let ?c = "CHR ''|''"
  have "\<not> (\<exists>q1 q2 q3. find_from ?c 0 line = Some q1 \<and>
            find_from ?c (Suc q1) line = Some q2 \<and> find_from ?c (Suc q2) line = Some q3)"
  proof
    assume "\<exists>q1 q2 q3. find_from ?c 0 line = Some q1 \<and>
            find_from ?c (Suc q1) line = Some q2 \<and> find_from ?c (Suc q2) line = Some q3"
    then obtain q1 q2 q3 where q: "find_from ?c 0 line = Some q1"
      "find_from ?c (Suc q1) line = Some q2" "find_from ?c (Suc q2) line = Some q3"
      by blast
    from find_from_count [OF q(1)] find_from_count [OF q(2)] find_from_count [OF q(3)]
    have "bars line \<ge> 3" by (simp add: bars_def)
    with assms show False by simp
  qed
  then show ?thesis
    by (auto simp: load_line_def after_def Let_def split: option.splits)
qed

lemma load_node_neq: "load_node data i d p f \<noteq> data"
proof
  assume "load_node data i d p f = data"
  then have "brk (load_node data i d p f) = brk data" by simp
  then show False by (simp add: load_node_def Let_def)
qed

lemma load_line_many_bars:
  assumes "3 \<le> bars line"
  shows "load_line data line \<noteq> Inr data"
proof -
  let ?c = "CHR ''|''"
  from assms have "Suc 2 \<le> length (filter (\<lambda>c. c = ?c) line)"
    by (simp add: bars_def)
  from bars_split [OF this] obtain f0 r0 where
    0: "line = f0 @ ?c # r0" "?c \<notin> set f0" "Suc 1 \<le> length (filter (\<lambda>c. c = ?c) r0)"
    by auto
  from bars_split [OF 0(3)] obtain f1 r1 where
    1: "r0 = f1 @ ?c # r1" "?c \<notin> set f1" "Suc 0 \<le> length (filter (\<lambda>c. c = ?c) r1)"
    by auto
  from bars_split [OF 1(3)] obtain f2 f3 where
    2: "r1 = f2 @ ?c # f3" "?c \<notin> set f2"
    by auto
  have line: "line = f0 @ ?c # f1 @ ?c # f2 @ ?c # f3"
    using 0 1 2 by simp
  show ?thesis
    unfolding line load_line_fields [OF 0(2) 1(2) 2(2)]
    by (auto split: sum.splits simp: load_node_neq)
qed

lemma load_lines_append:
  "load_lines data (ls @ ms) =
     (case load_lines data ls of Inl x \<Rightarrow> Inl x | Inr d \<Rightarrow> load_lines d ms)"
  by (induction ls arbitrary: data) (auto split: sum.splits)



subsection \<open>Unlinking a node\<close>

lemma detach_split:
  "detach h i xs = Some (c, rest) \<Longrightarrow>
   \<exists>pre post. xs = pre @ c # post \<and> rest = pre @ post \<and> taskId (h c) = i \<and>
     (\<forall>a \<in> set pre. taskId (h a) \<noteq> i)"
proof (induction xs arbitrary: rest)
  case Nil
  then show ?case by simp
next
  case (Cons x xs)
  show ?case
  proof (cases "taskId (h x) = i")
    case True
    with Cons.prems show ?thesis by (intro exI [of _ "[]"] exI [of _ xs]) simp
  next
    case False
    with Cons.prems obtain r where r: "detach h i xs = Some (c, r)" "rest = x # r"
      by (auto split: option.splits)
    from Cons.IH [OF r(1)] obtain pre post where
      "xs = pre @ c # post" "r = pre @ post" "taskId (h c) = i"
      "\<forall>a \<in> set pre. taskId (h a) \<noteq> i" by blast
    with False r(2) show ?thesis
      by (intro exI [of _ "x # pre"] exI [of _ post]) simp
  qed
qed

lemma find_detach:
  "find (\<lambda>a. taskId (h a) = i) xs = Some cur \<Longrightarrow>
   \<exists>pre post. xs = pre @ cur # post \<and> detach h i xs = Some (cur, pre @ post) \<and>
     taskId (h cur) = i \<and> cur \<notin> set pre"
proof (induction xs)
  case Nil
  then show ?case by simp
next
  case (Cons x xs)
  show ?case
  proof (cases "taskId (h x) = i")
    case True
    with Cons.prems have "x = cur" by simp
    with True show ?thesis by (intro exI [of _ "[]"] exI [of _ xs]) simp
  next
    case False
    with Cons.prems have "find (\<lambda>a. taskId (h a) = i) xs = Some cur" by simp
    from Cons.IH [OF this] obtain pre post where
      p: "xs = pre @ cur # post" "detach h i xs = Some (cur, pre @ post)"
        "taskId (h cur) = i" "cur \<notin> set pre"
      by blast
    from False p(3) have "x \<noteq> cur" by auto
    with False p show ?thesis
      by (intro exI [of _ "x # pre"] exI [of _ post]) simp
  qed
qed

subsection \<open>The chain and the index\<close>

lemma agreeI:
  assumes "distinct xs" and "\<And>a. a \<in> set xs \<Longrightarrow> m (f a) = Some a"
    and "\<And>i a. m i = Some a \<Longrightarrow> a \<in> set xs \<and> f a = i"
  shows "agree f xs m"
  unfolding agree_def using assms by blast

lemma agreeD1: "agree f xs m \<Longrightarrow> distinct xs"
  unfolding agree_def by blast

lemma agreeD2: "agree f xs m \<Longrightarrow> a \<in> set xs \<Longrightarrow> m (f a) = Some a"
  unfolding agree_def by blast

lemma agreeD3: "agree f xs m \<Longrightarrow> m i = Some a \<Longrightarrow> a \<in> set xs \<and> f a = i"
  unfolding agree_def by blast

lemma agree_inj:
  assumes "agree f xs m" and "a \<in> set xs" and "b \<in> set xs" and "f a = f b"
  shows "a = b"
proof -
  have "m (f a) = Some a" by (rule agreeD2 [OF assms(1,2)])
  then have "m (f b) = Some a" unfolding assms(4) .
  moreover have "m (f b) = Some b" by (rule agreeD2 [OF assms(1,3)])
  ultimately have "Some a = Some b" by (rule trans [OF sym])
  then show ?thesis by (rule option.inject [THEN iffD1])
qed

lemma sync_agree: "sync s \<longleftrightarrow> agree (\<lambda>a. taskId (nodes s a)) (head s) (taskMap s)"
proof
  assume "sync s"
  then show "agree (\<lambda>a. taskId (nodes s a)) (head s) (taskMap s)"
    unfolding sync_def agree_def by blast
next
  assume a: "agree (\<lambda>a. taskId (nodes s a)) (head s) (taskMap s)"
  have "\<forall>a \<in> set (head s). \<forall>b \<in> set (head s).
        taskId (nodes s a) = taskId (nodes s b) \<longrightarrow> a = b"
    using agree_inj [OF a] by blast
  moreover from a have "distinct (head s)"
    "\<forall>a \<in> set (head s). taskMap s (taskId (nodes s a)) = Some a"
    "\<forall>i a. taskMap s i = Some a \<longrightarrow> a \<in> set (head s) \<and> taskId (nodes s a) = i"
    unfolding agree_def by blast+
  ultimately show "sync s"
    unfolding sync_def by blast
qed

lemma agree_cong:
  assumes "\<And>a. a \<in> set xs \<Longrightarrow> g a = f a" and "agree f xs m"
  shows "agree g xs m"
proof (rule agreeI)
  show "distinct xs" by (rule agreeD1 [OF assms(2)])
next
  fix a assume "a \<in> set xs"
  then show "m (g a) = Some a"
    using agreeD2 [OF assms(2)] assms(1) by simp
next
  fix i a assume "m i = Some a"
  from agreeD3 [OF assms(2) this] assms(1) show "a \<in> set xs \<and> g a = i" by simp
qed

lemma agree_append:
  assumes "agree f xs m" and "n \<notin> set xs" and "\<And>a. a \<in> set xs \<Longrightarrow> f a \<noteq> k" and "f n = k"
  shows "agree f (xs @ [n]) (m(k \<mapsto> n))"
proof (rule agreeI)
  show "distinct (xs @ [n])"
    using agreeD1 [OF assms(1)] assms(2) by simp
next
  fix a assume a: "a \<in> set (xs @ [n])"
  show "(m(k \<mapsto> n)) (f a) = Some a"
  proof (cases "a = n")
    case True
    with assms(4) show ?thesis by simp
  next
    case False
    with a have "a \<in> set xs" by simp
    with assms(3) agreeD2 [OF assms(1)] show ?thesis by simp
  qed
next
  fix i a assume h: "(m(k \<mapsto> n)) i = Some a"
  show "a \<in> set (xs @ [n]) \<and> f a = i"
  proof (cases "i = k")
    case True
    with h assms(4) show ?thesis by simp
  next
    case False
    with h have "m i = Some a" by simp
    from agreeD3 [OF assms(1) this] show ?thesis by simp
  qed
qed

lemma agree_cons:
  assumes "agree f xs m" and "n \<notin> set xs" and "\<And>a. a \<in> set xs \<Longrightarrow> f a \<noteq> k" and "f n = k"
  shows "agree f (n # xs) (m(k \<mapsto> n))"
proof -
  from agree_append [OF assms] have a: "agree f (xs @ [n]) (m(k \<mapsto> n))" .
  show ?thesis
  proof (rule agreeI)
    show "distinct (n # xs)" using agreeD1 [OF a] by simp
  next
    fix b assume "b \<in> set (n # xs)"
    then have "b \<in> set (xs @ [n])" by auto
    then show "(m(k \<mapsto> n)) (f b) = Some b" by (rule agreeD2 [OF a])
  next
    fix i b assume "(m(k \<mapsto> n)) i = Some b"
    from agreeD3 [OF a this] show "b \<in> set (n # xs) \<and> f b = i" by auto
  qed
qed

lemma agree_remove:
  assumes "agree f (pre @ t # post) m"
  shows "agree f (pre @ post) (m(f t := None))"
proof (rule agreeI)
  show "distinct (pre @ post)" using agreeD1 [OF assms] by simp
next
  fix a assume a: "a \<in> set (pre @ post)"
  then have in': "a \<in> set (pre @ t # post)" by auto
  have t: "t \<in> set (pre @ t # post)" by simp
  from a agreeD1 [OF assms] have "a \<noteq> t" by auto
  with agree_inj [OF assms in' t] have "f a \<noteq> f t" by blast
  with agreeD2 [OF assms in'] show "(m(f t := None)) (f a) = Some a" by simp
next
  fix i a assume h: "(m(f t := None)) i = Some a"
  then have i: "i \<noteq> f t" by (auto split: if_splits)
  with h have "m i = Some a" by simp
  from agreeD3 [OF assms this] i show "a \<in> set (pre @ post) \<and> f a = i" by auto
qed

subsection \<open>The invariant of the store\<close>

lemma sint_succ:
  assumes "sint (k::i32) < 2147483647"
  shows "sint (k + 1) = sint k + 1"
proof -
  have "- (2 ^ 31) \<le> sint k" using sint_ge [of k] by simp
  then have "signed_take_bit 31 (sint k + 1) = sint k + 1"
    using assms by (intro signed_take_bit_int_eq_self) simp_all
  then show ?thesis by (simp add: sint_word_add)
qed

lemma max_i32_ge: "sint a \<le> sint (max_i32 a b) \<and> sint b \<le> sint (max_i32 a b)"
  by (simp add: max_i32_def)

lemma mem_neq: "y \<in> A \<Longrightarrow> x \<notin> A \<Longrightarrow> y \<noteq> x"
  by blast

lemma store_inv_linked:
  "store_inv s \<longleftrightarrow> linked s \<and> (\<forall>i \<in> set (ids s). sint i < sint (nextId s))"
  unfolding store_inv_def linked_def ids_below_def by blast

lemma store_inv_ok: "store_inv s \<Longrightarrow> store_ok s"
  unfolding store_inv_linked store_ok_def ids_fit_def by blast

lemma linked_init: "linked ToDoData_init"
  by (simp add: linked_def sync_def ids_def alloc_ok_def ToDoData_init_def)

lemma store_inv_init: "store_inv ToDoData_init"
  by (simp add: store_inv_linked linked_init) (simp add: ids_def ToDoData_init_def)

lemma store_ok_init: "store_ok ToDoData_init"
  by (rule store_inv_ok [OF store_inv_init])

text \<open>A new node at the end of the chain, under an identifier that is not in use.\<close>

lemma linked_append:
  assumes inv: "linked s" and new: "i \<notin> set (ids s)"
    and n: "nodes s' = (nodes s)(brk s := N)" and i: "taskId N = i"
    and h: "head s' = head s @ [brk s]" and m: "taskMap s' = (taskMap s)(i \<mapsto> brk s)"
    and d: "deletedStack s' = deletedStack s" and b: "brk s' = Suc (brk s)"
  shows "linked s' \<and> set (ids s') = insert i (set (ids s))"
proof -
  let ?f = "\<lambda>a. taskId (nodes s a)"
  let ?g = "\<lambda>a. taskId (nodes s' a)"
  from inv have sy: "agree ?f (head s) (taskMap s)" and dist: "distinct (ids s)"
    and al: "alloc_ok s"
    by (simp_all add: linked_def sync_agree)
  from al have fresh: "brk s \<notin> set (head s)" "brk s \<notin> set (deletedStack s)"
    by (auto simp: alloc_ok_def)
  have same: "?g a = ?f a" if "a \<noteq> brk s" for a
    using that by (simp add: n)
  have gh: "map ?g (head s) = map ?f (head s)"
    using fresh(1) by (intro map_cong refl same) auto
  have gd: "map ?g (deletedStack s) = map ?f (deletedStack s)"
    using fresh(2) by (intro map_cong refl same) auto
  have gb: "?g (brk s) = i"
    by (simp add: n i)
  from new have newh: "i \<notin> set (map ?f (head s))" and newd: "i \<notin> set (map ?f (deletedStack s))"
    by (simp_all add: ids_def)
  have ag: "agree ?g (head s) (taskMap s)"
  proof (rule agree_cong [OF _ sy])
    fix a assume "a \<in> set (head s)"
    with fresh(1) show "?g a = ?f a" by (intro same) auto
  qed
  have "agree ?g (head s @ [brk s]) ((taskMap s)(i \<mapsto> brk s))"
  proof (rule agree_append [where f = ?g and k = i, OF ag fresh(1)])
    fix a assume a: "a \<in> set (head s)"
    with fresh(1) have "?g a = ?f a" by (intro same) auto
    moreover from a newh have "?f a \<noteq> i" by auto
    ultimately show "?g a \<noteq> i" by simp
  next
    show "?g (brk s) = i" by (rule gb)
  qed
  then have 1: "sync s'"
    by (simp add: sync_agree h m)
  have ids': "ids s' = map ?f (head s) @ i # map ?f (deletedStack s)"
    by (simp add: ids_def h d gh gd gb)
  have ids0: "ids s = map ?f (head s) @ map ?f (deletedStack s)"
    by (simp add: ids_def)
  have 2: "distinct (ids s')"
    using dist newh newd unfolding ids' ids0 by auto
  from al fresh have 3: "alloc_ok s'"
    by (auto simp: alloc_ok_def h d b less_Suc_eq)
  have 4: "set (ids s') = insert i (set (ids s))"
    unfolding ids' ids0 by auto
  from 1 2 3 4 show ?thesis
    by (simp add: linked_def)
qed

text \<open>
  The operations that bring no new identifier: they keep the structure, the set of
  identifiers in use, and do not lower \<open>nextId\<close>.
\<close>

lemma linked_update:
  assumes inv: "linked s" and n: "\<And>a. taskId (nodes s' a) = taskId (nodes s a)"
    and h: "head s' = head s" and m: "taskMap s' = taskMap s"
    and d: "deletedStack s' = deletedStack s" and b: "brk s' = brk s"
  shows "linked s' \<and> set (ids s') = set (ids s)"
proof -
  have "sync s'" using inv by (simp add: linked_def sync_agree n h m)
  moreover have i: "ids s' = ids s" by (simp add: ids_def n h d)
  moreover have "alloc_ok s'" using inv by (simp add: linked_def alloc_ok_def h d b)
  ultimately show ?thesis using inv by (simp add: linked_def)
qed

lemma linked_editTask:
  assumes "linked s"
  shows "linked (snd (editTask s i newDesc newPrio)) \<and>
         set (ids (snd (editTask s i newDesc newPrio))) = set (ids s) \<and>
         sint (nextId s) \<le> sint (nextId (snd (editTask s i newDesc newPrio)))"
proof (cases "taskMap s i")
  case None
  with assms show ?thesis by (simp add: editTask_def)
next
  case (Some t)
  have "linked (snd (editTask s i newDesc newPrio)) \<and>
        set (ids (snd (editTask s i newDesc newPrio))) = set (ids s)"
    by (rule linked_update [OF assms])
      (simp_all add: editTask_def Some Let_def split: option.splits)
  moreover have "nextId (snd (editTask s i newDesc newPrio)) = nextId s"
    by (simp add: editTask_def Some Let_def split: option.splits)
  ultimately show ?thesis by simp
qed

lemma linked_markComplete:
  assumes "linked s"
  shows "linked (snd (markComplete s i done)) \<and>
         set (ids (snd (markComplete s i done))) = set (ids s) \<and>
         sint (nextId s) \<le> sint (nextId (snd (markComplete s i done)))"
proof (cases "taskMap s i")
  case None
  with assms show ?thesis by (simp add: markComplete_def)
next
  case (Some t)
  have "linked (snd (markComplete s i done)) \<and>
        set (ids (snd (markComplete s i done))) = set (ids s)"
    by (rule linked_update [OF assms]) (simp_all add: markComplete_def Some)
  moreover have "nextId (snd (markComplete s i done)) = nextId s"
    by (simp add: markComplete_def Some)
  ultimately show ?thesis by simp
qed

lemma linked_undoDelete:
  assumes inv: "linked s"
  shows "linked (snd (undoDelete s)) \<and>
         set (ids (snd (undoDelete s))) = set (ids s) \<and>
         sint (nextId s) \<le> sint (nextId (snd (undoDelete s)))"
proof (cases "deletedStack s")
  case Nil
  with inv show ?thesis by (simp add: undoDelete_def)
next
  case (Cons r below)
  let ?f = "\<lambda>a. taskId (nodes s a)"
  let ?s' = "snd (undoDelete s)"
  have n: "nodes ?s' = nodes s" and h: "head ?s' = r # head s"
    and m: "taskMap ?s' = (taskMap s)(?f r \<mapsto> r)" and d: "deletedStack ?s' = below"
    and b: "brk ?s' = brk s" and k: "nextId ?s' = max_i32 (nextId s) (?f r + 1)"
    by (simp_all add: undoDelete_def Cons Let_def)
  from inv have sy: "agree ?f (head s) (taskMap s)" and al: "alloc_ok s"
    and dist: "distinct (map ?f (head s) @ ?f r # map ?f below)"
    by (simp_all add: linked_def sync_agree ids_def Cons)
  from al have r: "r \<notin> set (head s)"
    by (auto simp: alloc_ok_def Cons)
  have "agree ?f (r # head s) ((taskMap s)(?f r \<mapsto> r))"
  proof (rule agree_cons [where f = ?f and k = "?f r", OF sy r])
    fix a assume "a \<in> set (head s)"
    then have "?f a \<in> set (map ?f (head s))" by simp
    moreover from dist have "?f r \<notin> set (map ?f (head s))" by simp
    ultimately show "?f a \<noteq> ?f r" by (rule mem_neq)
  qed simp
  then have 1: "sync ?s'"
    by (simp add: sync_agree n h m)
  have ids': "ids ?s' = ?f r # map ?f (head s) @ map ?f below"
    by (simp add: ids_def n h d)
  have ids0: "ids s = map ?f (head s) @ ?f r # map ?f below"
    by (simp add: ids_def Cons)
  have 2: "distinct (ids ?s')"
    using dist unfolding ids' by auto
  from al have 3: "alloc_ok ?s'"
    by (auto simp: alloc_ok_def h d b Cons)
  have 4: "set (ids ?s') = set (ids s)"
    unfolding ids' ids0 by auto
  have 5: "sint (nextId s) \<le> sint (nextId ?s')"
    using max_i32_ge [of "nextId s" "?f r + 1"] by (simp add: k)
  from 1 2 3 4 5 show ?thesis
    by (simp add: linked_def)
qed

lemma deleteTask_nextId: "nextId (snd (deleteTask s i)) = nextId s"
  by (simp add: deleteTask_def Let_def split: option.splits prod.splits)

lemma linked_deleteTask:
  assumes inv: "linked s"
  shows "linked (snd (deleteTask s i)) \<and>
         set (ids (snd (deleteTask s i))) = set (ids s) \<and>
         sint (nextId s) \<le> sint (nextId (snd (deleteTask s i)))"
proof (cases "taskMap s i")
  case None
  with inv show ?thesis by (simp add: deleteTask_def)
next
  case (Some t)
  show ?thesis
  proof (cases "detach (nodes s) i (head s)")
    case None
    with inv Some show ?thesis by (simp add: deleteTask_def)
  next
    case (Some cr)
    obtain cur rest where cr: "cr = (cur, rest)" by (cases cr)
    from Some cr have det: "detach (nodes s) i (head s) = Some (cur, rest)" by simp
    from detach_split [OF det] obtain pre post where
      hs: "head s = pre @ cur # post" and rest: "rest = pre @ post"
      and ci: "taskId (nodes s cur) = i" by blast
    let ?f = "\<lambda>a. taskId (nodes s a)"
    let ?s' = "snd (deleteTask s i)"
    let ?g = "\<lambda>a. taskId (nodes ?s' a)"
    have n: "nodes ?s' = (nodes s)(brk s := nodes s cur)" and h: "head ?s' = pre @ post"
      and m: "taskMap ?s' = (taskMap s)(i := None)"
      and d: "deletedStack ?s' = brk s # deletedStack s"
      and b: "brk ?s' = Suc (brk s)"
      using \<open>taskMap s i = Some t\<close> det rest
      by (simp_all add: deleteTask_def Let_def)
    from inv have sy: "agree ?f (pre @ cur # post) (taskMap s)"
      and dist: "distinct (ids s)" and al: "alloc_ok s"
      by (simp_all add: linked_def sync_agree hs)
    from al have fresh: "brk s \<notin> set (head s)" "brk s \<notin> set (deletedStack s)"
      by (auto simp: alloc_ok_def)
    have same: "?g a = ?f a" if "a \<noteq> brk s" for a
      using that by (simp add: n)
    have gh: "map ?g (pre @ post) = map ?f (pre @ post)"
      using fresh(1) hs by (intro map_cong refl same) auto
    have gd: "map ?g (deletedStack s) = map ?f (deletedStack s)"
      using fresh(2) by (intro map_cong refl same) auto
    have gb: "?g (brk s) = i"
      by (simp add: n ci)
    from agree_remove [OF sy] have "agree ?f (pre @ post) ((taskMap s)(i := None))"
      by (simp add: ci)
    then have "agree ?g (pre @ post) ((taskMap s)(i := None))"
    proof (rule agree_cong [rotated])
      fix a assume "a \<in> set (pre @ post)"
      with fresh(1) hs show "?g a = ?f a" by (intro same) auto
    qed
    then have 1: "sync ?s'"
      by (simp add: sync_agree h m)
    have ids': "ids ?s' = map ?f pre @ map ?f post @ i # map ?f (deletedStack s)"
      using gh gd gb by (simp add: ids_def h d)
    have ids0: "ids s = map ?f pre @ i # map ?f post @ map ?f (deletedStack s)"
      by (simp add: ids_def hs ci)
    have 2: "distinct (ids ?s')"
      using dist unfolding ids' ids0 by auto
    have 4: "set (ids ?s') = set (ids s)"
      unfolding ids' ids0 by auto
    from al fresh have 3: "alloc_ok ?s'"
      by (auto simp: alloc_ok_def h d b hs less_Suc_eq)
    from 1 2 3 4 show ?thesis
      by (simp add: linked_def deleteTask_nextId)
  qed
qed

text \<open>The two bounds on the identifiers in use follow the structure.\<close>

lemma store_inv_keep:
  assumes "store_inv s"
    and "linked s \<Longrightarrow>
         linked s' \<and> set (ids s') = set (ids s) \<and> sint (nextId s) \<le> sint (nextId s')"
  shows "store_inv s'"
proof -
  from assms(1) have l: "linked s" and b: "\<forall>j \<in> set (ids s). sint j < sint (nextId s)"
    by (simp_all add: store_inv_linked)
  from assms(2) [OF l] have l': "linked s'" and e: "set (ids s') = set (ids s)"
    and k: "sint (nextId s) \<le> sint (nextId s')"
    by simp_all
  have "sint j < sint (nextId s')" if "j \<in> set (ids s')" for j
  proof -
    from that e have "j \<in> set (ids s)" by simp
    with b have "sint j < sint (nextId s)" by blast
    with k show ?thesis by simp
  qed
  with l' show ?thesis
    by (simp add: store_inv_linked)
qed

lemma store_ok_keep:
  assumes "store_ok s"
    and "linked s \<Longrightarrow>
         linked s' \<and> set (ids s') = set (ids s) \<and> sint (nextId s) \<le> sint (nextId s')"
  shows "store_ok s'"
proof -
  from assms(1) have l: "linked s"
    and b: "\<forall>j \<in> set (ids s). sint j < sint (nextId s) \<or> sint j = 2147483647"
    by (simp_all add: store_ok_def ids_fit_def)
  from assms(2) [OF l] have l': "linked s'" and e: "set (ids s') = set (ids s)"
    and k: "sint (nextId s) \<le> sint (nextId s')"
    by simp_all
  have "sint j < sint (nextId s') \<or> sint j = 2147483647" if "j \<in> set (ids s')" for j
  proof -
    from that e have "j \<in> set (ids s)" by simp
    with b have "sint j < sint (nextId s) \<or> sint j = 2147483647" by blast
    with k show ?thesis by auto
  qed
  with l' show ?thesis
    by (simp add: store_ok_def ids_fit_def)
qed

lemma store_inv_editTask: "store_inv s \<Longrightarrow> store_inv (snd (editTask s i newDesc newPrio))"
  by (erule store_inv_keep) (rule linked_editTask)

lemma store_inv_markComplete: "store_inv s \<Longrightarrow> store_inv (snd (markComplete s i done))"
  by (erule store_inv_keep) (rule linked_markComplete)



lemma store_ok_editTask: "store_ok s \<Longrightarrow> store_ok (snd (editTask s i newDesc newPrio))"
  by (erule store_ok_keep) (rule linked_editTask)

lemma store_ok_markComplete: "store_ok s \<Longrightarrow> store_ok (snd (markComplete s i done))"
  by (erule store_ok_keep) (rule linked_markComplete)

lemma store_ok_undoDelete: "store_ok s \<Longrightarrow> store_ok (snd (undoDelete s))"
  by (erule store_ok_keep) (rule linked_undoDelete)

lemma store_ok_deleteTask: "store_ok s \<Longrightarrow> store_ok (snd (deleteTask s i))"
  by (erule store_ok_keep) (rule linked_deleteTask)

text \<open>The operations that bring a new identifier: \<open>addTask\<close> and the loop body of the loader.\<close>

lemma sint_less_neq: "sint (a::i32) < sint b \<Longrightarrow> a \<noteq> b"
  by auto

lemma linked_addTask:
  assumes "linked s" and "nextId s \<notin> set (ids s)" and "d \<noteq> []"
  shows "linked (snd (addTask s d p)) \<and>
         set (ids (snd (addTask s d p))) = insert (nextId s) (set (ids s))"
  by (rule linked_append [OF assms(1,2), where N = "nodes (snd (addTask s d p)) (brk s)"])
    (simp_all add: addTask_def Let_def assms(3))

lemma linked_load_node:
  assumes "linked s" and "i \<notin> set (ids s)"
  shows "linked (load_node s i d p f) \<and>
         set (ids (load_node s i d p f)) = insert i (set (ids s))"
  by (rule linked_append [OF assms, where N = "nodes (load_node s i d p f) (brk s)"])
    (simp_all add: load_node_def Let_def)


lemma store_ok_addTask:
  assumes "store_ok s" and "sint (nextId s) < 2147483647"
  shows "store_ok (snd (addTask s d p))"
proof (cases "d = []")
  case True
  with assms show ?thesis by (simp add: addTask_def)
next
  case False
  let ?s' = "snd (addTask s d p)"
  from assms(1) have l: "linked s"
    and b: "\<forall>j \<in> set (ids s). sint j < sint (nextId s) \<or> sint j = 2147483647"
    by (simp_all add: store_ok_def ids_fit_def)
  have new: "nextId s \<notin> set (ids s)"
  proof
    assume "nextId s \<in> set (ids s)"
    with b have "sint (nextId s) < sint (nextId s) \<or> sint (nextId s) = 2147483647" by blast
    with assms(2) show False by simp
  qed
  from linked_addTask [OF l new False, of p]
  have l': "linked ?s'" and e: "set (ids ?s') = insert (nextId s) (set (ids s))"
    by simp_all
  have k: "sint (nextId ?s') = sint (nextId s) + 1"
    using False by (simp add: addTask_def Let_def sint_succ [OF assms(2)])
  have "sint j < sint (nextId ?s') \<or> sint j = 2147483647" if "j \<in> set (ids ?s')" for j
  proof (cases "j = nextId s")
    case True
    with k show ?thesis by simp
  next
    case False
    with that e have "j \<in> set (ids s)" by simp
    with b have "sint j < sint (nextId s) \<or> sint j = 2147483647" by blast
    with k show ?thesis by auto
  qed
  with l' show ?thesis
    by (simp add: store_ok_def ids_fit_def)
qed


lemma store_ok_load_node:
  assumes "store_ok s" and "i \<notin> set (ids s)"
  shows "store_ok (load_node s i d p f)"
proof -
  let ?s' = "load_node s i d p f"
  from assms(1) have l: "linked s"
    and b: "\<forall>j \<in> set (ids s). sint j < sint (nextId s) \<or> sint j = 2147483647"
    by (simp_all add: store_ok_def ids_fit_def)
  from linked_load_node [OF l assms(2), of d p f]
  have l': "linked ?s'" and e: "set (ids ?s') = insert i (set (ids s))"
    by simp_all
  have k: "sint (nextId s) \<le> sint (nextId ?s')"
    using max_i32_ge [of "nextId s" "i + 1"] by (simp add: load_node_def Let_def)
  have top: "sint i \<le> 2147483647"
    using sint_lt [of i] by simp
  have ki: "sint i < sint (nextId ?s') \<or> sint i = 2147483647"
  proof (cases "sint i < 2147483647")
    case True
    then show ?thesis
      using max_i32_ge [of "nextId s" "i + 1"] sint_succ [OF True]
      by (simp add: load_node_def Let_def)
  next
    case False
    with top show ?thesis by simp
  qed
  have "sint j < sint (nextId ?s') \<or> sint j = 2147483647" if "j \<in> set (ids ?s')" for j
  proof (cases "j = i")
    case True
    with ki show ?thesis by simp
  next
    case False
    with that e have "j \<in> set (ids s)" by simp
    with b have "sint j < sint (nextId s) \<or> sint j = 2147483647" by blast
    with k show ?thesis by auto
  qed
  with l' show ?thesis
    by (simp add: store_ok_def ids_fit_def)
qed

subsection \<open>Loading and the invariant\<close>

lemma line_key_fields:
  assumes "CHR ''|'' \<notin> set f0" "CHR ''|'' \<notin> set f1" "CHR ''|'' \<notin> set f2"
  shows "line_key (f0 @ CHR ''|'' # f1 @ CHR ''|'' # f2 @ CHR ''|'' # f3) =
         (case stoi f0 of Inl _ \<Rightarrow> None | Inr i \<Rightarrow> Some i)"
proof -
  let ?l = "f0 @ CHR ''|'' # f1 @ CHR ''|'' # f2 @ CHR ''|'' # f3"
  have "takeWhile (\<lambda>c. c \<noteq> CHR ''|'') ?l = f0"
    using assms(1) by (simp add: takeWhile_append)
  moreover have "\<not> bars ?l < 3"
    by (simp add: bars_def)
  ultimately show ?thesis
    by (simp add: line_key_def)
qed

lemma line_split3:
  assumes "3 \<le> bars line"
  shows "\<exists>f0 f1 f2 f3. line = f0 @ CHR ''|'' # f1 @ CHR ''|'' # f2 @ CHR ''|'' # f3 \<and>
           CHR ''|'' \<notin> set f0 \<and> CHR ''|'' \<notin> set f1 \<and> CHR ''|'' \<notin> set f2"
proof -
  let ?c = "CHR ''|''"
  from assms have "Suc 2 \<le> length (filter (\<lambda>c. c = ?c) line)"
    by (simp add: bars_def)
  from bars_split [OF this] obtain f0 r0 where
    0: "line = f0 @ ?c # r0" "?c \<notin> set f0" "Suc 1 \<le> length (filter (\<lambda>c. c = ?c) r0)"
    by auto
  from bars_split [OF 0(3)] obtain f1 r1 where
    1: "r0 = f1 @ ?c # r1" "?c \<notin> set f1" "Suc 0 \<le> length (filter (\<lambda>c. c = ?c) r1)"
    by auto
  from bars_split [OF 1(3)] obtain f2 f3 where
    2: "r1 = f2 @ ?c # f3" "?c \<notin> set f2"
    by auto
  from 0 1 2 show ?thesis by auto
qed

lemma load_line_step:
  assumes inv: "store_ok s" and l: "load_line s line = Inr s'"
    and key: "\<And>k. line_key line = Some k \<Longrightarrow> k \<notin> set (ids s)"
  shows "store_ok s' \<and> set (ids s') \<subseteq> set (ids s) \<union> set_option (line_key line)"
proof (cases "bars line < 3")
  case True
  from load_line_few_bars [OF True, of s] l have "s' = s" by simp
  with inv show ?thesis by simp
next
  case False
  then have "3 \<le> bars line" by simp
  from line_split3 [OF this] obtain f0 f1 f2 f3 where
    line: "line = f0 @ CHR ''|'' # f1 @ CHR ''|'' # f2 @ CHR ''|'' # f3"
    and nb: "CHR ''|'' \<notin> set f0" "CHR ''|'' \<notin> set f1" "CHR ''|'' \<notin> set f2"
    by blast
  from l obtain i p d where i: "stoi f0 = Inr i" and s': "s' = load_node s i f1 p d"
    unfolding line load_line_fields [OF nb]
    by (auto split: sum.splits)
  have lk: "line_key line = Some i"
    unfolding line line_key_fields [OF nb] by (simp add: i)
  from key [OF lk] have fresh: "i \<notin> set (ids s)" .
  from inv have li: "linked s" by (simp add: store_ok_def)
  show ?thesis
    using store_ok_load_node [OF inv fresh] linked_load_node [OF li fresh]
    by (simp add: s' lk)
qed

lemma load_lines_inv:
  assumes "store_ok s" and "distinct (List.map_filter line_key ls)"
    and "set (List.map_filter line_key ls) \<inter> set (ids s) = {}"
  shows "store_ok (store_after (load_lines s ls))"
  using assms
proof (induction ls arbitrary: s)
  case Nil
  then show ?case by (simp add: store_after_def)
next
  case (Cons l ls)
  show ?case
  proof (cases "load_line s l")
    case (Inl e)
    with Cons.prems(1) show ?thesis by (simp add: store_after_def)
  next
    case (Inr s1)
    have keys: "set (List.map_filter line_key (l # ls)) =
                set_option (line_key l) \<union> set (List.map_filter line_key ls)"
      by (cases "line_key l") (simp_all add: List.map_filter_simps)
    have dist: "distinct (List.map_filter line_key ls)"
      and disj: "set_option (line_key l) \<inter> set (List.map_filter line_key ls) = {}"
      using Cons.prems(2) by (cases "line_key l"; simp add: List.map_filter_simps)+
    have step: "store_ok s1 \<and> set (ids s1) \<subseteq> set (ids s) \<union> set_option (line_key l)"
    proof (rule load_line_step [OF Cons.prems(1) Inr])
      fix k assume "line_key l = Some k"
      then have "k \<in> set (List.map_filter line_key (l # ls))"
        by (simp add: keys)
      with Cons.prems(3) show "k \<notin> set (ids s)" by blast
    qed
    have "set (List.map_filter line_key ls) \<inter> set (ids s1) = {}"
      using step disj Cons.prems(3) keys by blast
    then have "store_ok (store_after (load_lines s1 ls))"
      using Cons.IH step dist by blast
    with Inr show ?thesis by simp
  qed
qed

lemma store_ok_loadFromFile:
  assumes "store_ok s" and "distinct (file_keys file)"
    and "set (file_keys file) \<inter> set (ids s) = {}"
  shows "store_ok (store_after (loadFromFile s file))"
proof (cases "file")
  case None
  with assms(1) show ?thesis by (simp add: loadFromFile_def store_after_def)
next
  case (Some content)
  with assms show ?thesis
    by (simp add: loadFromFile_def file_keys_def load_lines_inv)
qed

lemma file_keys_example: "file_keys (Some ''1|a|1|0\<newline>2|b|2|1\<newline>'') = [1, 2]"
  by (simp add: file_keys_def getlines_def line_key_def bars_def stoi_def isspace_def
      isdigit_def digit_val_def digits_val_def Let_def List.map_filter_simps)

lemma file_keys_largest: "file_keys (Some ''2147483647|a|1|0\<newline>'') = [2147483647]"
  by (simp add: file_keys_def getlines_def line_key_def bars_def stoi_def isspace_def
      isdigit_def digit_val_def digits_val_def Let_def List.map_filter_simps)

subsection \<open>Runs of operations\<close>

lemma issued_append: "issued (xs @ ys) = issued xs @ issued ys"
  by (induction xs rule: issued.induct) simp_all






subsection \<open>Adding tasks\<close>

lemma issued_l_append: "issued_l (xs @ ys) = issued_l xs @ issued_l ys"
  by (induction xs rule: issued_l.induct) simp_all

lemma addTask_fields:
  assumes "desc \<noteq> []"
  shows "fst (addTask s desc prio) = [TaskAdded (nextId s)]"
    and "nodes (snd (addTask s desc prio)) =
         (nodes s)(brk s := \<lparr>taskId = nextId s, description = desc,
                              priority = effective_priority prio, completed = False\<rparr>)"
    and "brk (snd (addTask s desc prio)) = Suc (brk s)"
    and "head (snd (addTask s desc prio)) = head s @ [brk s]"
    and "taskMap (snd (addTask s desc prio)) = (taskMap s)(nextId s \<mapsto> brk s)"
    and "deletedStack (snd (addTask s desc prio)) = deletedStack s"
    and "nextId (snd (addTask s desc prio)) = nextId s + 1"
    and "totalTasks (snd (addTask s desc prio)) = totalTasks s + 1"
  using assms by (simp_all add: addTask_def effective_priority_def Let_def)

lemma addTask_search:
  assumes "desc \<noteq> []"
  shows "searchTask (snd (addTask s desc prio)) (nextId s) =
         [TaskFound \<lparr>taskId = nextId s, description = desc,
                     priority = effective_priority prio, completed = False\<rparr>]"
  by (simp add: searchTask_def addTask_fields [OF assms])

lemma addTask_listAll:
  assumes "desc \<noteq> []"
  shows "last (listAll (snd (addTask s desc prio))) =
           \<lparr>taskId = nextId s, description = desc,
            priority = effective_priority prio, completed = False\<rparr>"
    and "alloc_ok s \<Longrightarrow> listAll (snd (addTask s desc prio)) =
           listAll s @ [\<lparr>taskId = nextId s, description = desc,
                          priority = effective_priority prio, completed = False\<rparr>]"
proof -
  show "last (listAll (snd (addTask s desc prio))) =
           \<lparr>taskId = nextId s, description = desc,
            priority = effective_priority prio, completed = False\<rparr>"
    by (simp add: listAll_def addTask_fields [OF assms])
next
  assume "alloc_ok s"
  then have "brk s \<notin> set (head s)"
    by (auto simp: alloc_ok_def)
  then have "map ((nodes s)(brk s := n)) (head s) = map (nodes s) (head s)" for n
    by (intro map_cong refl) auto
  then show "listAll (snd (addTask s desc prio)) =
           listAll s @ [\<lparr>taskId = nextId s, description = desc,
                          priority = effective_priority prio, completed = False\<rparr>]"
    by (simp add: listAll_def addTask_fields [OF assms])
qed

lemma run_adds:
  assumes "\<forall>x \<in> set ts. fst x \<noteq> []"
    and "sint (nextId s) + int (length ts) \<le> 2147483647"
  shows "sint (nextId (snd (run s (map (\<lambda>(d, p). Add d p) ts)))) =
           sint (nextId s) + int (length ts) \<and>
         brk s \<le> brk (snd (run s (map (\<lambda>(d, p). Add d p) ts))) \<and>
         (\<forall>k. sint k < sint (nextId s) \<longrightarrow>
            taskMap (snd (run s (map (\<lambda>(d, p). Add d p) ts))) k = taskMap s k) \<and>
         (\<forall>a. a < brk s \<longrightarrow> nodes (snd (run s (map (\<lambda>(d, p). Add d p) ts))) a = nodes s a) \<and>
         length (issued (fst (run s (map (\<lambda>(d, p). Add d p) ts)))) = length ts \<and>
         (\<forall>j \<in> set (issued (fst (run s (map (\<lambda>(d, p). Add d p) ts)))).
            sint (nextId s) \<le> sint j) \<and>
         sorted_wrt (\<lambda>a b. sint a < sint b) (issued (fst (run s (map (\<lambda>(d, p). Add d p) ts)))) \<and>
         (\<forall>j < length ts.
            searchTask (snd (run s (map (\<lambda>(d, p). Add d p) ts)))
              (issued (fst (run s (map (\<lambda>(d, p). Add d p) ts))) ! j) =
            [TaskFound \<lparr>taskId = issued (fst (run s (map (\<lambda>(d, p). Add d p) ts))) ! j,
                        description = fst (ts ! j),
                        priority = effective_priority (snd (ts ! j)),
                        completed = False\<rparr>])"
  using assms
proof (induction ts arbitrary: s)
  case Nil
  then show ?case by simp
next
  case (Cons x ts)
  obtain d p where x: "x = (d, p)" by (cases x)
  from Cons.prems(1) x have d: "d \<noteq> []" by simp
  let ?s1 = "snd (addTask s d p)"
  let ?N = "\<lparr>taskId = nextId s, description = d, priority = effective_priority p,
             completed = False\<rparr>"
  note f = addTask_fields [OF d, of s p]
  from Cons.prems(2) have lt: "sint (nextId s) < 2147483647" by simp
  have n1: "sint (nextId ?s1) = sint (nextId s) + 1"
    by (simp add: f sint_succ [OF lt])
  obtain outs s2 where r: "run ?s1 (map (\<lambda>(d, p). Add d p) ts) = (outs, s2)"
    by (cases "run ?s1 (map (\<lambda>(d, p). Add d p) ts)")
  have run: "run s (map (\<lambda>(d, p). Add d p) (x # ts)) = (TaskAdded (nextId s) # outs, s2)"
    using f(1) r by (simp add: x prod_eq_iff split: prod.splits)
  from Cons.prems have p1: "\<forall>x \<in> set ts. fst x \<noteq> []"
    and p2: "sint (nextId ?s1) + int (length ts) \<le> 2147483647"
    by (simp_all add: n1)
  from Cons.IH [OF p1 p2] r
  have ih: "sint (nextId s2) = sint (nextId ?s1) + int (length ts)"
    "brk ?s1 \<le> brk s2"
    "\<And>k. sint k < sint (nextId ?s1) \<Longrightarrow> taskMap s2 k = taskMap ?s1 k"
    "\<And>a. a < brk ?s1 \<Longrightarrow> nodes s2 a = nodes ?s1 a"
    "length (issued outs) = length ts"
    "\<forall>j \<in> set (issued outs). sint (nextId ?s1) \<le> sint j"
    "sorted_wrt (\<lambda>a b. sint a < sint b) (issued outs)"
    "\<And>j. j < length ts \<Longrightarrow> searchTask s2 (issued outs ! j) =
            [TaskFound \<lparr>taskId = issued outs ! j, description = fst (ts ! j),
                        priority = effective_priority (snd (ts ! j)), completed = False\<rparr>]"
    by simp_all
  have c1: "sint (nextId s2) = sint (nextId s) + int (length (x # ts))"
    using ih(1) n1 by simp
  have c2: "brk s \<le> brk s2"
    using ih(2) by (simp add: f)
  have c3: "taskMap s2 k = taskMap s k" if "sint k < sint (nextId s)" for k
  proof -
    from that n1 have "sint k < sint (nextId ?s1)" by simp
    from ih(3) [OF this] sint_less_neq [OF that] show ?thesis
      by (simp add: f)
  qed
  have c4: "nodes s2 a = nodes s a" if "a < brk s" for a
  proof -
    from that have "a < brk ?s1" by (simp add: f)
    from ih(4) [OF this] that show ?thesis
      by (simp add: f)
  qed
  have c5: "length (issued (TaskAdded (nextId s) # outs)) = length (x # ts)"
    using ih(5) by simp
  have c6: "\<forall>j \<in> set (issued (TaskAdded (nextId s) # outs)). sint (nextId s) \<le> sint j"
    using ih(6) n1 by auto
  have c7: "sorted_wrt (\<lambda>a b. sint a < sint b) (issued (TaskAdded (nextId s) # outs))"
    using ih(6,7) n1 by auto
  have here: "searchTask s2 (nextId s) = [TaskFound ?N]"
  proof -
    have "sint (nextId s) < sint (nextId ?s1)" using n1 by simp
    from ih(3) [OF this] have "taskMap s2 (nextId s) = Some (brk s)"
      by (simp add: f)
    moreover have "nodes s2 (brk s) = ?N"
      using ih(4) [of "brk s"] by (simp add: f)
    ultimately show ?thesis
      by (simp add: searchTask_def)
  qed
  have c8: "searchTask s2 (issued (TaskAdded (nextId s) # outs) ! j) =
            [TaskFound \<lparr>taskId = issued (TaskAdded (nextId s) # outs) ! j,
                        description = fst ((x # ts) ! j),
                        priority = effective_priority (snd ((x # ts) ! j)),
                        completed = False\<rparr>]"
    if "j < length (x # ts)" for j
  proof (cases j)
    case 0
    with here show ?thesis by (simp add: x)
  next
    case (Suc j')
    with that have "j' < length ts" by simp
    from ih(8) [OF this] show ?thesis by (simp add: Suc)
  qed
  show ?case
    unfolding run using c1 c2 c3 c4 c5 c6 c7 c8 by simp
qed

lemma as_data_addTask:
  "as_data (snd (addTask_l l d p)) = snd (addTask (as_data l) d p) \<and>
   issued_l (fst (addTask_l l d p)) = issued (fst (addTask (as_data l) d p))"
  by (simp add: as_data_def addTask_l_def addTask_def Let_def)

lemma as_data_addAll:
  "as_data (snd (addAll_l l ts)) = snd (run (as_data l) (map (\<lambda>(d, p). Add d p) ts)) \<and>
   issued_l (fst (addAll_l l ts)) = issued (fst (run (as_data l) (map (\<lambda>(d, p). Add d p) ts)))"
proof (induction ts arbitrary: l)
  case Nil
  then show ?case by simp
next
  case (Cons x ts)
  obtain d p where x: "x = (d, p)" by (cases x)
  obtain out l1 where a: "addTask_l l d p = (out, l1)" by (cases "addTask_l l d p")
  obtain outs l2 where r: "addAll_l l1 ts = (outs, l2)" by (cases "addAll_l l1 ts")
  obtain out' s1 where a': "addTask (as_data l) d p = (out', s1)"
    by (cases "addTask (as_data l) d p")
  obtain outs' s2 where r': "run s1 (map (\<lambda>(d, p). Add d p) ts) = (outs', s2)"
    by (cases "run s1 (map (\<lambda>(d, p). Add d p) ts)")
  from as_data_addTask [of l d p] a a' have 1: "as_data l1 = s1" "issued_l out = issued out'"
    by simp_all
  from Cons.IH [of l1] r r' 1(1) have 2: "as_data l2 = s2" "issued_l outs = issued outs'"
    by simp_all
  show ?case
    by (simp add: x a r a' r' 1 2 issued_append issued_l_append)
qed

lemma search_as_data:
  "searchTask_l l i = [TaskDetails n] \<longleftrightarrow> searchTask (as_data l) i = [TaskFound n]"
  by (simp add: searchTask_l_def searchTask_def as_data_def split: option.splits)

lemma listAll_as_data: "listAll_l l = listAll (as_data l)"
  by (simp add: listAll_l_def listAll_def as_data_def)

lemma addAll_l_adds:
  assumes "\<forall>x \<in> set ts. fst x \<noteq> []"
    and "sint (taskCounter l) + int (length ts) \<le> 2147483647"
  shows "length (issued_l (fst (addAll_l l ts))) = length ts \<and>
         sorted_wrt (\<lambda>a b. sint a < sint b) (issued_l (fst (addAll_l l ts))) \<and>
         (\<forall>j < length ts.
            searchTask_l (snd (addAll_l l ts)) (issued_l (fst (addAll_l l ts)) ! j) =
            [TaskDetails \<lparr>taskId = issued_l (fst (addAll_l l ts)) ! j,
                          description = fst (ts ! j),
                          priority = effective_priority (snd (ts ! j)),
                          completed = False\<rparr>])"
proof -
  have b: "sint (nextId (as_data l)) + int (length ts) \<le> 2147483647"
    using assms(2) by (simp add: as_data_def)
  note r = run_adds [OF assms(1) b]
  note a = as_data_addAll [of l ts]
  from a have i: "issued (fst (run (as_data l) (map (\<lambda>(d, p). Add d p) ts))) =
                  issued_l (fst (addAll_l l ts))"
    and s: "snd (run (as_data l) (map (\<lambda>(d, p). Add d p) ts)) = as_data (snd (addAll_l l ts))"
    by simp_all
  from r show ?thesis
    unfolding i s by (simp add: search_as_data)
qed

subsection \<open>Writing and reading numbers\<close>

lemma digit_char_props:
  assumes "d < 10"
  shows "isdigit (digit_char d) \<and> digit_val (digit_char d) = int d"
proof -
  from assms have "d = 0 \<or> d = 1 \<or> d = 2 \<or> d = 3 \<or> d = 4 \<or> d = 5 \<or> d = 6 \<or> d = 7 \<or> d = 8 \<or> d = 9"
    by arith
  then show ?thesis
    by (elim disjE) (simp_all add: digit_char_def isdigit_def digit_val_def)
qed

lemma digits_val_snoc: "digits_val (ds @ [c]) = digits_val ds * 10 + digit_val c"
  by (simp add: digits_val_def)

lemma show_nat_props:
  "show_nat n \<noteq> [] \<and> (\<forall>c \<in> set (show_nat n). isdigit c) \<and> digits_val (show_nat n) = int n"
proof (induction n rule: show_nat.induct)
  case (1 n)
  show ?case
  proof (cases "n < 10")
    case True
    have "show_nat n = [digit_char n]"
      using True by (subst show_nat.simps) simp
    with digit_char_props [OF True] show ?thesis
      by (simp add: digits_val_def)
  next
    case False
    have s: "show_nat n = show_nat (n div 10) @ [digit_char (n mod 10)]"
      using False by (subst show_nat.simps) simp
    have m: "n mod 10 < 10" by simp
    have "n div 10 * 10 + n mod 10 = n"
      by simp
    then have "int (n div 10 * 10 + n mod 10) = int n"
      by (rule arg_cong)
    then have e: "int (n div 10) * 10 + int (n mod 10) = int n"
      by (simp only: of_nat_add of_nat_mult of_nat_numeral)
    from 1 [OF False] digit_char_props [OF m] e show ?thesis
      unfolding s by (simp add: digits_val_snoc)
  qed
qed

lemma isdigit_plain:
  assumes "isdigit c"
  shows "\<not> isspace c" "c \<noteq> CHR ''-''" "c \<noteq> CHR ''+''" "c \<noteq> CHR ''|''" "c \<noteq> CHR 0x0A"
  using assms by (auto simp: isdigit_def isspace_def)

lemma takeWhile_all: "(\<forall>c \<in> set xs. P c) \<Longrightarrow> takeWhile P xs = xs"
  by (induction xs) simp_all

lemma stoi_digits:
  assumes "ds \<noteq> []" and "\<forall>c \<in> set ds. isdigit c"
    and "- (2 ^ 31) \<le> digits_val ds" and "digits_val ds < 2 ^ 31"
  shows "stoi ds = Inr (word_of_int (digits_val ds))"
proof -
  from assms(1) obtain c cs where ds: "ds = c # cs" by (cases ds) auto
  with assms(2) have c: "isdigit c" by simp
  note p = isdigit_plain [OF c]
  have 1: "dropWhile isspace ds = ds"
    using p(1) by (simp add: ds)
  have 2: "takeWhile isdigit ds = ds"
    by (rule takeWhile_all [OF assms(2)])
  have 3: "hd ds \<noteq> CHR ''-''" "hd ds \<noteq> CHR ''+''"
    using p(2,3) by (simp_all add: ds)
  show ?thesis
    unfolding stoi_def 1 Let_def
    using assms(1,3,4) by (simp add: 2 3)
qed

lemma stoi_minus_digits:
  assumes "ds \<noteq> []" and "\<forall>c \<in> set ds. isdigit c"
    and "- (2 ^ 31) \<le> - digits_val ds" and "- digits_val ds < 2 ^ 31"
  shows "stoi (CHR ''-'' # ds) = Inr (word_of_int (- digits_val ds))"
proof -
  have 1: "dropWhile isspace (CHR ''-'' # ds) = CHR ''-'' # ds"
    by (simp add: isspace_def)
  have 2: "takeWhile isdigit ds = ds"
    by (rule takeWhile_all [OF assms(2)])
  show ?thesis
    unfolding stoi_def 1 Let_def
    using assms(1,3,4) by (simp add: 2)
qed

lemma stoi_show_i32: "stoi (show_i32 w) = Inr w"
proof (cases "sint w < 0")
  case True
  let ?n = "nat (- sint w)"
  note p = show_nat_props [of ?n]
  have v: "digits_val (show_nat ?n) = - sint w"
    using p True by simp
  have lo: "- (2 ^ 31) \<le> sint w" using sint_ge [of w] by simp
  have "stoi (CHR ''-'' # show_nat ?n) = Inr (word_of_int (- digits_val (show_nat ?n)))"
    using p lo True by (intro stoi_minus_digits) (simp_all add: v)
  then show ?thesis
    using True by (simp add: show_i32_def show_int_def v)
next
  case False
  let ?n = "nat (sint w)"
  note p = show_nat_props [of ?n]
  have v: "digits_val (show_nat ?n) = sint w"
    using p False by simp
  have hi: "sint w < 2 ^ 31" using sint_lt [of w] by simp
  have "stoi (show_nat ?n) = Inr (word_of_int (digits_val (show_nat ?n)))"
    using p hi False by (intro stoi_digits) (simp_all add: v)
  then show ?thesis
    using False by (simp add: show_i32_def show_int_def v)
qed

lemma show_i32_chars:
  "CHR ''|'' \<notin> set (show_i32 w) \<and> CHR 0x0A \<notin> set (show_i32 w)"
proof -
  have "CHR ''|'' \<notin> set (show_nat n) \<and> CHR 0x0A \<notin> set (show_nat n)" for n
    using show_nat_props [of n] isdigit_plain(4,5) by blast
  then show ?thesis
    by (simp add: show_i32_def show_int_def)
qed

lemma sanitize_props:
  "CHR ''|'' \<notin> set (sanitize d)"
  "CHR 0x0A \<notin> set d \<Longrightarrow> CHR 0x0A \<notin> set (sanitize d)"
  "CHR ''|'' \<notin> set d \<Longrightarrow> sanitize d = d"
  by (induction d) auto

subsection \<open>Saving and loading again\<close>

lemma save_line_record: "save_line n = record_of n @ [CHR 0x0A]"
  by (simp add: save_line_def record_of_def)

lemma record_of_no_newline:
  assumes "CHR 0x0A \<notin> set (description n)"
  shows "CHR 0x0A \<notin> set (record_of n)"
  using show_i32_chars [of "taskId n"] show_i32_chars [of "priority n"]
    sanitize_props(2) [OF assms]
  by (simp add: record_of_def)

lemma getlines_from_line:
  "CHR 0x0A \<notin> set l \<Longrightarrow>
   getlines_from acc (l @ CHR 0x0A # rest) = (rev acc @ l) # getlines_from [] rest"
  by (induction l arbitrary: acc) auto

lemma getlines_saved:
  assumes "\<forall>n \<in> set ns. CHR 0x0A \<notin> set (description n)"
  shows "getlines (concat (map save_line ns)) = map record_of ns"
  using assms
proof (induction ns)
  case Nil
  then show ?case by (simp add: getlines_def)
next
  case (Cons n ns)
  from Cons.prems have "CHR 0x0A \<notin> set (record_of n)"
    by (simp add: record_of_no_newline)
  from getlines_from_line [OF this, of "[]" "concat (map save_line ns)"]
  have "getlines (record_of n @ CHR 0x0A # concat (map save_line ns)) =
        record_of n # getlines (concat (map save_line ns))"
    by (simp add: getlines_def)
  moreover have "concat (map save_line (n # ns)) =
                 record_of n @ CHR 0x0A # concat (map save_line ns)"
    by (simp add: save_line_record)
  moreover from Cons have "getlines (concat (map save_line ns)) = map record_of ns"
    by simp
  ultimately show ?case
    by simp
qed

lemma stoi_flag: "stoi ''1'' = Inr 1" "stoi ''0'' = Inr 0"
  by (simp_all add: stoi_def isspace_def isdigit_def digit_val_def digits_val_def Let_def)

lemma load_line_record:
  "load_line s (record_of n) =
   Inr (load_node s (taskId n) (sanitize (description n)) (priority n)
          (if completed n then 1 else 0))"
proof -
  have nb: "CHR ''|'' \<notin> set (show_i32 (taskId n))" "CHR ''|'' \<notin> set (sanitize (description n))"
    "CHR ''|'' \<notin> set (show_i32 (priority n))"
    using show_i32_chars sanitize_props(1) by simp_all
  show ?thesis
    unfolding record_of_def load_line_fields [OF nb]
    by (simp add: stoi_show_i32 stoi_flag)
qed

lemma load_lines_records: "load_lines s (map record_of ns) = Inr (load_nodes s ns)"
  by (induction ns arbitrary: s) (simp_all add: load_line_record)

lemma load_node_listAll:
  assumes "\<forall>a \<in> set (head s). a < brk s"
  shows "listAll (load_node s i d p f) =
           listAll s @ [\<lparr>taskId = i, description = d, priority = p, completed = (f \<noteq> 0)\<rparr>]"
    and "\<forall>a \<in> set (head (load_node s i d p f)). a < brk (load_node s i d p f)"
proof -
  from assms have "brk s \<notin> set (head s)" by auto
  then have "map ((nodes s)(brk s := n)) (head s) = map (nodes s) (head s)" for n
    by (intro map_cong refl) auto
  then show "listAll (load_node s i d p f) =
           listAll s @ [\<lparr>taskId = i, description = d, priority = p, completed = (f \<noteq> 0)\<rparr>]"
    by (simp add: listAll_def load_node_def Let_def)
  from assms show "\<forall>a \<in> set (head (load_node s i d p f)). a < brk (load_node s i d p f)"
    by (auto simp: load_node_def Let_def less_Suc_eq)
qed

lemma load_node_nextId:
  "sint (nextId s) \<le> sint (nextId (load_node s i d p f))"
  "sint i < 2147483647 \<Longrightarrow> sint i < sint (nextId (load_node s i d p f))"
  using max_i32_ge [of "nextId s" "i + 1"]
  by (simp_all add: load_node_def Let_def sint_succ)

lemma load_nodes_result:
  assumes "\<forall>a \<in> set (head s). a < brk s"
  shows "listAll (load_nodes s ns) = listAll s @ map reloaded ns \<and>
         sint (nextId s) \<le> sint (nextId (load_nodes s ns)) \<and>
         (\<forall>n \<in> set ns. sint (taskId n) < 2147483647 \<longrightarrow>
            sint (taskId n) < sint (nextId (load_nodes s ns)))"
  using assms
proof (induction ns arbitrary: s)
  case Nil
  then show ?case by simp
next
  case (Cons n ns)
  let ?s1 = "load_node s (taskId n) (sanitize (description n)) (priority n)
               (if completed n then 1 else 0)"
  note l = load_node_listAll [OF Cons.prems, of "taskId n" "sanitize (description n)"
      "priority n" "if completed n then 1 else 0"]
  note k = load_node_nextId [where s = s and i = "taskId n" and d = "sanitize (description n)"
      and p = "priority n" and f = "if completed n then 1 else 0"]
  note ih = Cons.IH [OF l(2)]
  have r: "\<lparr>taskId = taskId n, description = sanitize (description n), priority = priority n,
            completed = ((if completed n then 1 else 0) \<noteq> (0::i32))\<rparr> = reloaded n"
    by (simp add: reloaded_def)
  have 1: "listAll (load_nodes s (n # ns)) = listAll s @ map reloaded (n # ns)"
    using ih l(1) by (simp add: r)
  have 2: "sint (nextId s) \<le> sint (nextId (load_nodes s (n # ns)))"
    using ih k(1) by simp
  have 3: "sint (taskId m) < sint (nextId (load_nodes s (n # ns)))"
    if "m \<in> set (n # ns)" and "sint (taskId m) < 2147483647" for m
  proof (cases "m \<in> set ns")
    case True
    with ih that(2) show ?thesis by simp
  next
    case False
    with that(1) have "m = n" by simp
    with k(2) that(2) have "sint (taskId m) < sint (nextId ?s1)" by simp
    with ih show ?thesis by simp
  qed
  from 1 2 3 show ?case by blast
qed

lemma reloaded_id: "CHR ''|'' \<notin> set (description n) \<Longrightarrow> reloaded n = n"
  by (simp add: reloaded_def sanitize_props(3))

section \<open>Properties\<close>

text \<open>
  C1. Let an identifier be in the index and let \<open>cur\<close> be the first node of the chain
  that carries it, the node \<open>deleteTask\<close> unlinks. Deleting the identifier and undoing the
  deletion right away gives back a task with the identifier, description, priority and
  completion state of that node; it is the first task of the display order, in front of
  the nodes that were left in the chain, which keep their order, and not at the place the
  node had; the index finds it under its identifier; and the number of tasks and the task
  count are what they were before the deletion. Nothing is assumed of the store; when
  chain and index agree, \<open>cur\<close> is the node the index pointed to.
\<close>

theorem delete_then_undo:
  assumes "taskMap s i = Some t"
    and "find (\<lambda>a. taskId (nodes s a) = i) (head s) = Some cur"
  shows "fst (deleteTask s i) = [TaskDeleted] \<and>
         fst (undoDelete (snd (deleteTask s i))) = [TaskRestored i] \<and>
         taskId (nodes s cur) = i \<and>
         listAll (snd (undoDelete (snd (deleteTask s i)))) =
           nodes s cur # listAll (snd (deleteTask s i)) \<and>
         head (snd (deleteTask s i)) = remove1 cur (head s) \<and>
         (brk s \<notin> set (head s) \<longrightarrow>
            listAll (snd (undoDelete (snd (deleteTask s i)))) =
              nodes s cur # map (nodes s) (remove1 cur (head s))) \<and>
         searchTask (snd (undoDelete (snd (deleteTask s i)))) i = [TaskFound (nodes s cur)] \<and>
         length (listAll (snd (undoDelete (snd (deleteTask s i))))) = length (listAll s) \<and>
         totalTasks (snd (undoDelete (snd (deleteTask s i)))) = totalTasks s \<and>
         (sync s \<longrightarrow> cur = t)"
proof -
  from find_detach [OF assms(2)] obtain pre post where
    h: "head s = pre @ cur # post" and d: "detach (nodes s) i (head s) = Some (cur, pre @ post)"
    and i: "taskId (nodes s cur) = i" and n: "cur \<notin> set pre"
    by blast
  have r: "remove1 cur (head s) = pre @ post"
    using h n by (simp add: remove1_append)
  have fresh: "map ((nodes s)(brk s := x)) (pre @ post) = map (nodes s) (pre @ post)"
    if "brk s \<notin> set (head s)" for x
    using that h by (intro map_cong refl) auto
  have agree: "cur = t" if "sync s"
  proof -
    from h have "cur \<in> set (head s)" by simp
    with that have "taskMap s (taskId (nodes s cur)) = Some cur"
      by (simp add: sync_def)
    with i assms(1) show ?thesis by simp
  qed
  show ?thesis
    using assms(1) d i r h fresh agree
    by (simp add: deleteTask_def undoDelete_def searchTask_def listAll_def Let_def)
qed

theorem delete_then_undo_witness:
  "taskMap (snd (addTask (snd (addTask (snd (addTask ToDoData_init ''a'' 3)) ''b'' 2)) ''c'' 1)) 2 = Some 1 \<and>
   find (\<lambda>a. taskId (nodes (snd (addTask (snd (addTask (snd (addTask ToDoData_init ''a'' 3)) ''b'' 2)) ''c'' 1)) a) = 2)
     (head (snd (addTask (snd (addTask (snd (addTask ToDoData_init ''a'' 3)) ''b'' 2)) ''c'' 1))) = Some 1 \<and>
   listAll (snd (addTask (snd (addTask (snd (addTask ToDoData_init ''a'' 3)) ''b'' 2)) ''c'' 1)) =
     [\<lparr>taskId = 1, description = ''a'', priority = 3, completed = False\<rparr>,
      \<lparr>taskId = 2, description = ''b'', priority = 2, completed = False\<rparr>,
      \<lparr>taskId = 3, description = ''c'', priority = 1, completed = False\<rparr>] \<and>
   listAll (snd (undoDelete (snd (deleteTask
       (snd (addTask (snd (addTask (snd (addTask ToDoData_init ''a'' 3)) ''b'' 2)) ''c'' 1)) 2)))) =
     [\<lparr>taskId = 2, description = ''b'', priority = 2, completed = False\<rparr>,
      \<lparr>taskId = 1, description = ''a'', priority = 3, completed = False\<rparr>,
      \<lparr>taskId = 3, description = ''c'', priority = 1, completed = False\<rparr>] \<and>
   totalTasks (snd (undoDelete (snd (deleteTask
       (snd (addTask (snd (addTask (snd (addTask ToDoData_init ''a'' 3)) ''b'' 2)) ''c'' 1)) 2)))) = 3 \<and>
   \<not> sync (store_after (loadFromFile ToDoData_init
       (Some ''2|x|1|0\<newline>1|a|1|0\<newline>1|b|2|1\<newline>''))) \<and>
   listAll (snd (undoDelete (snd (deleteTask (store_after (loadFromFile ToDoData_init
       (Some ''2|x|1|0\<newline>1|a|1|0\<newline>1|b|2|1\<newline>''))) 1)))) =
     [\<lparr>taskId = 1, description = ''a'', priority = 1, completed = False\<rparr>,
      \<lparr>taskId = 2, description = ''x'', priority = 1, completed = False\<rparr>,
      \<lparr>taskId = 1, description = ''b'', priority = 2, completed = True\<rparr>]"
proof -
  let ?s = "snd (addTask (snd (addTask (snd (addTask ToDoData_init ''a'' 3)) ''b'' 2)) ''c'' 1)"
  let ?d = "load_node (load_node (load_node ToDoData_init 2 ''x'' 1 0) 1 ''a'' 1 0) 1 ''b'' 2 1"
  have l: "store_after (loadFromFile ToDoData_init
             (Some ''2|x|1|0\<newline>1|a|1|0\<newline>1|b|2|1\<newline>'')) = ?d"
    by (simp add: loadFromFile_def getlines_def load_line_def find_from_def after_def substr_def
        substr_from_def stoi_def isspace_def isdigit_def digit_val_def digits_val_def
        store_after_def Let_def)
  have 1: "taskMap ?s 2 = Some 1"
    by (simp add: addTask_def ToDoData_init_def Let_def)
  have 2: "find (\<lambda>a. taskId (nodes ?s a) = 2) (head ?s) = Some 1"
    by (simp add: addTask_def ToDoData_init_def Let_def)
  have 3: "listAll ?s =
     [\<lparr>taskId = 1, description = ''a'', priority = 3, completed = False\<rparr>,
      \<lparr>taskId = 2, description = ''b'', priority = 2, completed = False\<rparr>,
      \<lparr>taskId = 3, description = ''c'', priority = 1, completed = False\<rparr>]"
    by (simp add: listAll_def addTask_def ToDoData_init_def Let_def)
  have 4: "brk ?s \<notin> set (head ?s)"
    "nodes ?s 1 = \<lparr>taskId = 2, description = ''b'', priority = 2, completed = False\<rparr>"
    "map (nodes ?s) (remove1 1 (head ?s)) =
       [\<lparr>taskId = 1, description = ''a'', priority = 3, completed = False\<rparr>,
        \<lparr>taskId = 3, description = ''c'', priority = 1, completed = False\<rparr>]"
    "totalTasks ?s = 3"
    by (simp_all add: addTask_def ToDoData_init_def Let_def)
  note a = delete_then_undo [OF 1 2]
  from a have "brk ?s \<notin> set (head ?s) \<longrightarrow>
      listAll (snd (undoDelete (snd (deleteTask ?s 2)))) =
        nodes ?s 1 # map (nodes ?s) (remove1 1 (head ?s))"
    by (elim conjE)
  from this 4(1) have "listAll (snd (undoDelete (snd (deleteTask ?s 2)))) =
        nodes ?s 1 # map (nodes ?s) (remove1 1 (head ?s))"
    by (rule mp)
  then have r1: "listAll (snd (undoDelete (snd (deleteTask ?s 2)))) =
     [\<lparr>taskId = 2, description = ''b'', priority = 2, completed = False\<rparr>,
      \<lparr>taskId = 1, description = ''a'', priority = 3, completed = False\<rparr>,
      \<lparr>taskId = 3, description = ''c'', priority = 1, completed = False\<rparr>]"
    unfolding 4(2) 4(3) .
  from a have "totalTasks (snd (undoDelete (snd (deleteTask ?s 2)))) = totalTasks ?s"
    by (elim conjE)
  then have r1t: "totalTasks (snd (undoDelete (snd (deleteTask ?s 2)))) = 3"
    unfolding 4(4) .
  have 5: "taskMap ?d 1 = Some 2"
    by (simp add: load_node_def ToDoData_init_def Let_def)
  have 6: "find (\<lambda>a. taskId (nodes ?d a) = 1) (head ?d) = Some 1"
    by (simp add: load_node_def ToDoData_init_def Let_def)
  have 7: "\<not> sync ?d"
    by (simp add: sync_def load_node_def ToDoData_init_def Let_def)
  have 8: "brk ?d \<notin> set (head ?d)"
    "nodes ?d 1 = \<lparr>taskId = 1, description = ''a'', priority = 1, completed = False\<rparr>"
    "map (nodes ?d) (remove1 1 (head ?d)) =
       [\<lparr>taskId = 2, description = ''x'', priority = 1, completed = False\<rparr>,
        \<lparr>taskId = 1, description = ''b'', priority = 2, completed = True\<rparr>]"
    by (simp_all add: load_node_def ToDoData_init_def Let_def)
  note b = delete_then_undo [OF 5 6]
  from b have "brk ?d \<notin> set (head ?d) \<longrightarrow>
      listAll (snd (undoDelete (snd (deleteTask ?d 1)))) =
        nodes ?d 1 # map (nodes ?d) (remove1 1 (head ?d))"
    by (elim conjE)
  from this 8(1) have "listAll (snd (undoDelete (snd (deleteTask ?d 1)))) =
        nodes ?d 1 # map (nodes ?d) (remove1 1 (head ?d))"
    by (rule mp)
  then have r2: "listAll (snd (undoDelete (snd (deleteTask ?d 1)))) =
     [\<lparr>taskId = 1, description = ''a'', priority = 1, completed = False\<rparr>,
      \<lparr>taskId = 2, description = ''x'', priority = 1, completed = False\<rparr>,
      \<lparr>taskId = 1, description = ''b'', priority = 2, completed = True\<rparr>]"
    unfolding 8(2) 8(3) .
  show ?thesis
    unfolding l using 1 2 3 7 r1 r1t r2 by (intro conjI)
qed

text \<open>
  C2. The empty store satisfies an invariant that contains the agreement of chain and
  index, and each operation keeps it: \<open>addTask\<close> while \<open>nextId\<close> is below the largest
  \<open>int\<close>, \<open>editTask\<close>, \<open>deleteTask\<close>, \<open>undoDelete\<close> and \<open>markComplete\<close> always, and
  \<open>loadFromFile\<close> when the identifiers of the lines it reads are pairwise different and
  not yet in the store, whatever their value.
\<close>

theorem chain_and_index_agree:
  "store_ok ToDoData_init \<and>
   (store_ok s \<longrightarrow>
      sync s \<and>
      (sint (nextId s) < 2147483647 \<longrightarrow> store_ok (snd (addTask s desc prio))) \<and>
      store_ok (snd (editTask s i newDesc newPrio)) \<and>
      store_ok (snd (deleteTask s i)) \<and>
      store_ok (snd (undoDelete s)) \<and>
      store_ok (snd (markComplete s i done)) \<and>
      (distinct (file_keys file) \<and> set (file_keys file) \<inter> set (ids s) = {} \<longrightarrow>
         store_ok (store_after (loadFromFile s file))))"
  using store_ok_init store_ok_addTask store_ok_editTask store_ok_deleteTask
    store_ok_undoDelete store_ok_markComplete store_ok_loadFromFile
  by (simp add: store_ok_def linked_def)

theorem chain_and_index_agree_witness:
  "store_ok ToDoData_init \<and>
   sint (nextId ToDoData_init) < 2147483647 \<and>
   file_keys (Some ''1|a|1|0\<newline>2|b|2|1\<newline>'') = [1, 2] \<and>
   file_keys (Some ''2147483647|a|1|0\<newline>'') = [2147483647] \<and>
   ids ToDoData_init = [] \<and>
   store_ok (snd (addTask ToDoData_init ''a'' 3)) \<and>
   sync (snd (addTask ToDoData_init ''a'' 3)) \<and>
   store_ok (store_after (loadFromFile ToDoData_init (Some ''1|a|1|0\<newline>2|b|2|1\<newline>''))) \<and>
   sync (store_after (loadFromFile ToDoData_init (Some ''1|a|1|0\<newline>2|b|2|1\<newline>''))) \<and>
   store_ok (store_after (loadFromFile ToDoData_init (Some ''2147483647|a|1|0\<newline>''))) \<and>
   sync (store_after (loadFromFile ToDoData_init (Some ''2147483647|a|1|0\<newline>''))) \<and>
   sync (snd (addTask (store_after (loadFromFile ToDoData_init
       (Some ''2147483647|a|1|0\<newline>''))) ''b'' 1))"
proof -
  let ?file = "Some ''1|a|1|0\<newline>2|b|2|1\<newline>''"
  let ?top = "Some ''2147483647|a|1|0\<newline>''"
  let ?t = "store_after (loadFromFile ToDoData_init ?top)"
  have n: "sint (nextId ToDoData_init) < 2147483647"
    by (simp add: ToDoData_init_def)
  have e: "ids ToDoData_init = []"
    by (simp add: ids_def ToDoData_init_def)
  note k = file_keys_example file_keys_largest
  have 1: "store_ok ToDoData_init"
    "store_ok (snd (addTask ToDoData_init ''a'' 3))"
    "store_ok (store_after (loadFromFile ToDoData_init ?file))"
    using chain_and_index_agree [of ToDoData_init "''a''" 3 _ _ _ _ ?file] n e k
    by simp_all
  have 2: "store_ok ?t"
    using chain_and_index_agree [of ToDoData_init _ _ _ _ _ _ ?top] e k
    by simp
  have nt: "sint (nextId ?t) < 2147483647"
    by (simp add: loadFromFile_def getlines_def load_line_def find_from_def after_def substr_def
        substr_from_def stoi_def isspace_def isdigit_def digit_val_def digits_val_def
        store_after_def load_node_def max_i32_def ToDoData_init_def Let_def)
  have 3: "store_ok (snd (addTask ?t ''b'' 1))"
    using chain_and_index_agree [of ?t "''b''" 1] 2 nt
    by simp
  have 4: "sync (snd (addTask ToDoData_init ''a'' 3))"
    using chain_and_index_agree [of "snd (addTask ToDoData_init ''a'' 3)"] 1(2)
    by simp
  have 5: "sync (store_after (loadFromFile ToDoData_init ?file))"
    using chain_and_index_agree [of "store_after (loadFromFile ToDoData_init ?file)"] 1(3)
    by simp
  have 6: "sync ?t"
    using chain_and_index_agree [of ?t] 2
    by simp
  have 7: "sync (snd (addTask ?t ''b'' 1))"
    using chain_and_index_agree [of "snd (addTask ?t ''b'' 1)"] 3
    by simp
  from 1 2 4 5 6 7 n e k show ?thesis by simp
qed

theorem chain_and_index_disagree:
  "\<not> sync (store_after (loadFromFile ToDoData_init (Some ''1|a|1|0\<newline>1|b|1|0\<newline>''))) \<and>
   \<not> sync (snd (addTask (snd (addTask (store_after (loadFromFile ToDoData_init
        (Some ''-2147483648|a|1|0\<newline>2147483646|b|1|0\<newline>''))) ''c'' 1)) ''d'' 1))"
proof
  have "store_after (loadFromFile ToDoData_init (Some ''1|a|1|0\<newline>1|b|1|0\<newline>'')) =
        load_node (load_node ToDoData_init 1 ''a'' 1 0) 1 ''b'' 1 0"
    by (simp add: loadFromFile_def getlines_def load_line_def find_from_def after_def substr_def
        substr_from_def stoi_def isspace_def isdigit_def digit_val_def digits_val_def
        store_after_def Let_def)
  moreover have "\<not> sync (load_node (load_node ToDoData_init 1 ''a'' 1 0) 1 ''b'' 1 0)"
    by (simp add: sync_def load_node_def ToDoData_init_def Let_def)
  ultimately show "\<not> sync (store_after (loadFromFile ToDoData_init
      (Some ''1|a|1|0\<newline>1|b|1|0\<newline>'')))"
    by simp
next
  have "store_after (loadFromFile ToDoData_init
          (Some ''-2147483648|a|1|0\<newline>2147483646|b|1|0\<newline>'')) =
        load_node (load_node ToDoData_init (- 2147483648) ''a'' 1 0) 2147483646 ''b'' 1 0"
    by (simp add: loadFromFile_def getlines_def load_line_def find_from_def after_def substr_def
        substr_from_def stoi_def isspace_def isdigit_def digit_val_def digits_val_def
        store_after_def Let_def)
  moreover have "\<not> sync (snd (addTask (snd (addTask
      (load_node (load_node ToDoData_init (- 2147483648) ''a'' 1 0) 2147483646 ''b'' 1 0)
      ''c'' 1)) ''d'' 1))"
    by (simp add: sync_def addTask_def load_node_def max_i32_def ToDoData_init_def Let_def)
  ultimately show "\<not> sync (snd (addTask (snd (addTask (store_after (loadFromFile ToDoData_init
        (Some ''-2147483648|a|1|0\<newline>2147483646|b|1|0\<newline>''))) ''c'' 1)) ''d'' 1))"
    by simp
qed




text \<open>
  C4. With a description that is not empty, \<open>addTask\<close> announces \<open>nextId\<close> as the
  identifier of the new task, links the new node at the end of the chain, files it in the
  index under that identifier, and adds one to \<open>nextId\<close> and to the task count; a search
  for the identifier finds the task with the description given, the priority given when it
  is in 1..5 and priority 1 otherwise, and not completed. Over a run of such calls that
  does not take \<open>nextId\<close> past the largest \<open>int\<close>, the identifiers announced increase
  strictly and each task is still found, with these fields, at the end of the run. The
  class variant behaves in the same way.
\<close>

theorem addTask_appends_and_is_found:
  "(desc \<noteq> [] \<longrightarrow>
      fst (addTask s desc prio) = [TaskAdded (nextId s)] \<and>
      head (snd (addTask s desc prio)) = head s @ [brk s] \<and>
      nodes (snd (addTask s desc prio)) (brk s) =
        \<lparr>taskId = nextId s, description = desc, priority = effective_priority prio,
         completed = False\<rparr> \<and>
      last (listAll (snd (addTask s desc prio))) =
        \<lparr>taskId = nextId s, description = desc, priority = effective_priority prio,
         completed = False\<rparr> \<and>
      (alloc_ok s \<longrightarrow>
         listAll (snd (addTask s desc prio)) =
           listAll s @ [\<lparr>taskId = nextId s, description = desc,
                          priority = effective_priority prio, completed = False\<rparr>]) \<and>
      taskMap (snd (addTask s desc prio)) (nextId s) = Some (brk s) \<and>
      nextId (snd (addTask s desc prio)) = nextId s + 1 \<and>
      totalTasks (snd (addTask s desc prio)) = totalTasks s + 1 \<and>
      searchTask (snd (addTask s desc prio)) (nextId s) =
        [TaskFound \<lparr>taskId = nextId s, description = desc,
                    priority = effective_priority prio, completed = False\<rparr>] \<and>
      issued_l (fst (addTask_l l desc prio)) = [taskCounter l] \<and>
      head_l (snd (addTask_l l desc prio)) = head_l l @ [brk_l l] \<and>
      hashTable (snd (addTask_l l desc prio)) (taskCounter l) = Some (brk_l l) \<and>
      taskCounter (snd (addTask_l l desc prio)) = taskCounter l + 1 \<and>
      size_l (snd (addTask_l l desc prio)) = size_l l + 1 \<and>
      searchTask_l (snd (addTask_l l desc prio)) (taskCounter l) =
        [TaskDetails \<lparr>taskId = taskCounter l, description = desc,
                      priority = effective_priority prio, completed = False\<rparr>]) \<and>
   ((\<forall>x \<in> set ts. fst x \<noteq> []) \<and> sint (nextId s) + int (length ts) \<le> 2147483647 \<longrightarrow>
      length (issued (fst (run s (map (\<lambda>(d, p). Add d p) ts)))) = length ts \<and>
      sorted_wrt (\<lambda>a b. sint a < sint b) (issued (fst (run s (map (\<lambda>(d, p). Add d p) ts)))) \<and>
      (\<forall>j < length ts.
         searchTask (snd (run s (map (\<lambda>(d, p). Add d p) ts)))
           (issued (fst (run s (map (\<lambda>(d, p). Add d p) ts))) ! j) =
         [TaskFound \<lparr>taskId = issued (fst (run s (map (\<lambda>(d, p). Add d p) ts))) ! j,
                     description = fst (ts ! j),
                     priority = effective_priority (snd (ts ! j)),
                     completed = False\<rparr>])) \<and>
   ((\<forall>x \<in> set ts. fst x \<noteq> []) \<and> sint (taskCounter l) + int (length ts) \<le> 2147483647 \<longrightarrow>
      length (issued_l (fst (addAll_l l ts))) = length ts \<and>
      sorted_wrt (\<lambda>a b. sint a < sint b) (issued_l (fst (addAll_l l ts))) \<and>
      (\<forall>j < length ts.
         searchTask_l (snd (addAll_l l ts)) (issued_l (fst (addAll_l l ts)) ! j) =
         [TaskDetails \<lparr>taskId = issued_l (fst (addAll_l l ts)) ! j,
                       description = fst (ts ! j),
                       priority = effective_priority (snd (ts ! j)),
                       completed = False\<rparr>]))"
proof (intro conjI impI)
  assume d: "desc \<noteq> []"
  note f = addTask_fields [OF d, of s prio]
  show "fst (addTask s desc prio) = [TaskAdded (nextId s)]" by (rule f)
  show "head (snd (addTask s desc prio)) = head s @ [brk s]" by (rule f)
  show "nodes (snd (addTask s desc prio)) (brk s) =
        \<lparr>taskId = nextId s, description = desc, priority = effective_priority prio,
         completed = False\<rparr>"
    by (simp add: f)
  show "last (listAll (snd (addTask s desc prio))) =
        \<lparr>taskId = nextId s, description = desc, priority = effective_priority prio,
         completed = False\<rparr>"
    by (rule addTask_listAll (1) [OF d])
  show "taskMap (snd (addTask s desc prio)) (nextId s) = Some (brk s)" by (simp add: f)
  show "nextId (snd (addTask s desc prio)) = nextId s + 1" by (rule f)
  show "totalTasks (snd (addTask s desc prio)) = totalTasks s + 1" by (rule f)
  show "searchTask (snd (addTask s desc prio)) (nextId s) =
        [TaskFound \<lparr>taskId = nextId s, description = desc,
                    priority = effective_priority prio, completed = False\<rparr>]"
    by (rule addTask_search [OF d])
  show "issued_l (fst (addTask_l l desc prio)) = [taskCounter l]"
    using d by (simp add: addTask_l_def Let_def)
  show "head_l (snd (addTask_l l desc prio)) = head_l l @ [brk_l l]"
    using d by (simp add: addTask_l_def Let_def)
  show "hashTable (snd (addTask_l l desc prio)) (taskCounter l) = Some (brk_l l)"
    using d by (simp add: addTask_l_def Let_def)
  show "taskCounter (snd (addTask_l l desc prio)) = taskCounter l + 1"
    using d by (simp add: addTask_l_def Let_def)
  show "size_l (snd (addTask_l l desc prio)) = size_l l + 1"
    using d by (simp add: addTask_l_def Let_def)
  show "searchTask_l (snd (addTask_l l desc prio)) (taskCounter l) =
        [TaskDetails \<lparr>taskId = taskCounter l, description = desc,
                      priority = effective_priority prio, completed = False\<rparr>]"
    using d by (simp add: addTask_l_def searchTask_l_def effective_priority_def Let_def)
next
  assume "desc \<noteq> []" and "alloc_ok s"
  then show "listAll (snd (addTask s desc prio)) =
           listAll s @ [\<lparr>taskId = nextId s, description = desc,
                          priority = effective_priority prio, completed = False\<rparr>]"
    by (rule addTask_listAll (2))
next
  assume a: "(\<forall>x \<in> set ts. fst x \<noteq> []) \<and> sint (nextId s) + int (length ts) \<le> 2147483647"
  then have a1: "\<forall>x \<in> set ts. fst x \<noteq> []"
    and a2: "sint (nextId s) + int (length ts) \<le> 2147483647" by simp_all
  note r = run_adds [OF a1 a2]
  from r show "length (issued (fst (run s (map (\<lambda>(d, p). Add d p) ts)))) = length ts"
    by simp
  from r show "sorted_wrt (\<lambda>a b. sint a < sint b)
      (issued (fst (run s (map (\<lambda>(d, p). Add d p) ts))))"
    by simp
  from r show "\<forall>j < length ts.
         searchTask (snd (run s (map (\<lambda>(d, p). Add d p) ts)))
           (issued (fst (run s (map (\<lambda>(d, p). Add d p) ts))) ! j) =
         [TaskFound \<lparr>taskId = issued (fst (run s (map (\<lambda>(d, p). Add d p) ts))) ! j,
                     description = fst (ts ! j),
                     priority = effective_priority (snd (ts ! j)),
                     completed = False\<rparr>]"
    by simp
next
  assume a: "(\<forall>x \<in> set ts. fst x \<noteq> []) \<and> sint (taskCounter l) + int (length ts) \<le> 2147483647"
  then have a1: "\<forall>x \<in> set ts. fst x \<noteq> []"
    and a2: "sint (taskCounter l) + int (length ts) \<le> 2147483647" by simp_all
  note r = addAll_l_adds [OF a1 a2]
  from r show "length (issued_l (fst (addAll_l l ts))) = length ts"
    by simp
  from r show "sorted_wrt (\<lambda>a b. sint a < sint b) (issued_l (fst (addAll_l l ts)))"
    by simp
  from r show "\<forall>j < length ts.
         searchTask_l (snd (addAll_l l ts)) (issued_l (fst (addAll_l l ts)) ! j) =
         [TaskDetails \<lparr>taskId = issued_l (fst (addAll_l l ts)) ! j,
                       description = fst (ts ! j),
                       priority = effective_priority (snd (ts ! j)),
                       completed = False\<rparr>]"
    by simp
qed

theorem addTask_appends_and_is_found_witness:
  "alloc_ok ToDoData_init \<and>
   listAll (snd (addTask ToDoData_init ''a'' 3)) =
     [\<lparr>taskId = 1, description = ''a'', priority = 3, completed = False\<rparr>] \<and>
   nextId (snd (addTask ToDoData_init ''a'' 3)) = 2 \<and>
   issued (fst (run ToDoData_init [Add ''a'' 3, Add ''b'' 9, Add ''c'' 0])) = [1, 2, 3] \<and>
   searchTask (snd (run ToDoData_init [Add ''a'' 3, Add ''b'' 9, Add ''c'' 0])) 2 =
     [TaskFound \<lparr>taskId = 2, description = ''b'', priority = 1, completed = False\<rparr>] \<and>
   issued_l (fst (addAll_l ToDoList_init [(''a'', 3), (''b'', 9), (''c'', 0)])) = [1, 2, 3] \<and>
   searchTask_l (snd (addAll_l ToDoList_init [(''a'', 3), (''b'', 9), (''c'', 0)])) 2 =
     [TaskDetails \<lparr>taskId = 2, description = ''b'', priority = 1, completed = False\<rparr>]"
proof -
  let ?ts = "[(''a'', 3), (''b'', 9), (''c'', 0)] :: (string \<times> i32) list"
  have al: "alloc_ok ToDoData_init"
    by (simp add: alloc_ok_def ToDoData_init_def)
  have d: "''a'' \<noteq> []" by simp
  have ne: "\<forall>x \<in> set ?ts. fst x \<noteq> []" by simp
  have n: "nextId ToDoData_init = 1" "taskCounter ToDoList_init = 1"
    "listAll ToDoData_init = []"
    by (simp_all add: ToDoData_init_def ToDoList_init_def listAll_def)
  have b: "sint (nextId ToDoData_init) + int (length ?ts) \<le> 2147483647"
    "sint (taskCounter ToDoList_init) + int (length ?ts) \<le> 2147483647"
    by (simp_all add: n)
  have i: "issued (fst (run ToDoData_init [Add ''a'' 3, Add ''b'' 9, Add ''c'' 0])) = [1, 2, 3]"
    by (simp add: addTask_def ToDoData_init_def Let_def)
  have il: "issued_l (fst (addAll_l ToDoList_init ?ts)) = [1, 2, 3]"
    by (simp add: addTask_l_def ToDoList_init_def Let_def)
  have e: "effective_priority 3 = 3" "effective_priority 9 = 1"
    by (simp_all add: effective_priority_def)
  note t = addTask_appends_and_is_found [of "''a''" ToDoData_init 3 ToDoList_init ?ts]
  from t d al have 1: "listAll (snd (addTask ToDoData_init ''a'' 3)) =
     [\<lparr>taskId = 1, description = ''a'', priority = 3, completed = False\<rparr>]"
    "nextId (snd (addTask ToDoData_init ''a'' 3)) = 2"
    by (simp_all add: n e)
  from t ne b have "\<forall>j < length ?ts.
         searchTask (snd (run ToDoData_init (map (\<lambda>(d, p). Add d p) ?ts)))
           (issued (fst (run ToDoData_init (map (\<lambda>(d, p). Add d p) ?ts))) ! j) =
         [TaskFound \<lparr>taskId = issued (fst (run ToDoData_init (map (\<lambda>(d, p). Add d p) ?ts))) ! j,
                     description = fst (?ts ! j),
                     priority = effective_priority (snd (?ts ! j)),
                     completed = False\<rparr>]"
    by blast
  then have "searchTask (snd (run ToDoData_init (map (\<lambda>(d, p). Add d p) ?ts)))
           (issued (fst (run ToDoData_init (map (\<lambda>(d, p). Add d p) ?ts))) ! 1) =
         [TaskFound \<lparr>taskId = issued (fst (run ToDoData_init (map (\<lambda>(d, p). Add d p) ?ts))) ! 1,
                     description = fst (?ts ! 1),
                     priority = effective_priority (snd (?ts ! 1)),
                     completed = False\<rparr>]"
    by simp
  then have 2: "searchTask (snd (run ToDoData_init [Add ''a'' 3, Add ''b'' 9, Add ''c'' 0])) 2 =
     [TaskFound \<lparr>taskId = 2, description = ''b'', priority = 1, completed = False\<rparr>]"
    using i by (simp add: e)
  from t ne b have "\<forall>j < length ?ts.
         searchTask_l (snd (addAll_l ToDoList_init ?ts))
           (issued_l (fst (addAll_l ToDoList_init ?ts)) ! j) =
         [TaskDetails \<lparr>taskId = issued_l (fst (addAll_l ToDoList_init ?ts)) ! j,
                       description = fst (?ts ! j),
                       priority = effective_priority (snd (?ts ! j)),
                       completed = False\<rparr>]"
    by blast
  then have "searchTask_l (snd (addAll_l ToDoList_init ?ts))
           (issued_l (fst (addAll_l ToDoList_init ?ts)) ! 1) =
         [TaskDetails \<lparr>taskId = issued_l (fst (addAll_l ToDoList_init ?ts)) ! 1,
                       description = fst (?ts ! 1),
                       priority = effective_priority (snd (?ts ! 1)),
                       completed = False\<rparr>]"
    by simp
  then have 3: "searchTask_l (snd (addAll_l ToDoList_init ?ts)) 2 =
     [TaskDetails \<lparr>taskId = 2, description = ''b'', priority = 1, completed = False\<rparr>]"
    unfolding il by (simp add: e)
  from al 1 2 3 i il show ?thesis by simp
qed

theorem addTask_priority_and_wrap:
  "searchTask (snd (addTask ToDoData_init ''d'' 9)) 1 =
     [TaskFound \<lparr>taskId = 1, description = ''d'', priority = 1, completed = False\<rparr>] \<and>
   searchTask_l (snd (addTask_l ToDoList_init ''d'' 9)) 1 =
     [TaskDetails \<lparr>taskId = 1, description = ''d'', priority = 1, completed = False\<rparr>] \<and>
   issued (fst (run (store_after (loadFromFile ToDoData_init (Some ''2147483646|a|1|0\<newline>'')))
      [Add ''b'' 1, Add ''c'' 1])) = [2147483647, - 2147483648] \<and>
   \<not> sint (2147483647 :: i32) < sint (- 2147483648 :: i32)"
proof -
  have l: "store_after (loadFromFile ToDoData_init (Some ''2147483646|a|1|0\<newline>'')) =
           load_node ToDoData_init 2147483646 ''a'' 1 0"
    by (simp add: loadFromFile_def getlines_def load_line_def find_from_def after_def substr_def
        substr_from_def stoi_def isspace_def isdigit_def digit_val_def digits_val_def
        store_after_def Let_def)
  have 1: "searchTask (snd (addTask ToDoData_init ''d'' 9)) 1 =
     [TaskFound \<lparr>taskId = 1, description = ''d'', priority = 1, completed = False\<rparr>]"
    by (simp add: searchTask_def addTask_def ToDoData_init_def Let_def)
  have 2: "searchTask_l (snd (addTask_l ToDoList_init ''d'' 9)) 1 =
     [TaskDetails \<lparr>taskId = 1, description = ''d'', priority = 1, completed = False\<rparr>]"
    by (simp add: searchTask_l_def addTask_l_def ToDoList_init_def Let_def)
  have 3: "issued (fst (run (load_node ToDoData_init 2147483646 ''a'' 1 0)
      [Add ''b'' 1, Add ''c'' 1])) = [2147483647, - 2147483648]"
    by (simp add: addTask_def load_node_def max_i32_def ToDoData_init_def Let_def)
  have 4: "\<not> sint (2147483647 :: i32) < sint (- 2147483648 :: i32)"
    by simp
  from 1 2 3 4 show ?thesis by (simp add: l)
qed

text \<open>
  C5. When no description of the store holds a delimiter or a line feed, loading what
  \<open>saveToFile\<close> wrote into the empty store returns, and the new store lists the same
  tasks, with the same identifier, description, priority and completion state, in the same
  order. When moreover every identifier is below the largest \<open>int\<close>, the \<open>nextId\<close> of
  the new store is above every identifier loaded.
\<close>

theorem save_then_load:
  assumes "\<forall>n \<in> set (listAll s).
             CHR ''|'' \<notin> set (description n) \<and> CHR 0x0A \<notin> set (description n)"
  shows "\<exists>s'. loadFromFile ToDoData_init (snd (saveToFile s True)) = Inr s' \<and>
           listAll s' = listAll s \<and>
           ((\<forall>n \<in> set (listAll s). sint (taskId n) < 2147483647) \<longrightarrow>
            (\<forall>n \<in> set (listAll s'). sint (taskId n) < sint (nextId s')))"
proof -
  let ?ns = "listAll s"
  let ?s' = "load_nodes ToDoData_init ?ns"
  have g: "getlines (concat (map save_line ?ns)) = map record_of ?ns"
    using assms by (intro getlines_saved) simp
  have 1: "loadFromFile ToDoData_init (snd (saveToFile s True)) = Inr ?s'"
    by (simp add: saveToFile_def loadFromFile_def g load_lines_records)
  have e: "\<forall>a \<in> set (head ToDoData_init). a < brk ToDoData_init"
    by (simp add: ToDoData_init_def)
  note r = load_nodes_result [OF e, of ?ns]
  have "map reloaded ?ns = ?ns"
    using assms by (intro map_idI reloaded_id) simp
  with r have 2: "listAll ?s' = ?ns"
    by (simp add: listAll_def ToDoData_init_def)
  have 3: "\<forall>n \<in> set (listAll ?s'). sint (taskId n) < sint (nextId ?s')"
    if "\<forall>n \<in> set ?ns. sint (taskId n) < 2147483647"
    unfolding 2 using r that by blast
  from 1 2 3 show ?thesis by blast
qed

theorem save_then_load_witness:
  "listAll (snd (addTask (snd (addTask ToDoData_init ''buy milk'' 3)) ''call bob'' 9)) =
     [\<lparr>taskId = 1, description = ''buy milk'', priority = 3, completed = False\<rparr>,
      \<lparr>taskId = 2, description = ''call bob'', priority = 1, completed = False\<rparr>] \<and>
   snd (saveToFile (snd (addTask (snd (addTask ToDoData_init ''buy milk'' 3)) ''call bob'' 9)) True) =
     Some ''1|buy milk|3|0\<newline>2|call bob|1|0\<newline>'' \<and>
   (\<exists>s'. loadFromFile ToDoData_init (Some ''1|buy milk|3|0\<newline>2|call bob|1|0\<newline>'') = Inr s' \<and>
      listAll s' =
        [\<lparr>taskId = 1, description = ''buy milk'', priority = 3, completed = False\<rparr>,
         \<lparr>taskId = 2, description = ''call bob'', priority = 1, completed = False\<rparr>] \<and>
      sint (1 :: i32) < sint (nextId s') \<and> sint (2 :: i32) < sint (nextId s'))"
proof -
  let ?s = "snd (addTask (snd (addTask ToDoData_init ''buy milk'' 3)) ''call bob'' 9)"
  have l: "listAll ?s =
     [\<lparr>taskId = 1, description = ''buy milk'', priority = 3, completed = False\<rparr>,
      \<lparr>taskId = 2, description = ''call bob'', priority = 1, completed = False\<rparr>]"
    by (simp add: listAll_def addTask_def ToDoData_init_def Let_def)
  have f: "snd (saveToFile ?s True) = Some ''1|buy milk|3|0\<newline>2|call bob|1|0\<newline>''"
    unfolding saveToFile_def l
    by (simp add: save_line_def show_i32_def show_int_def show_nat.simps digit_char_def)
  have h: "\<forall>n \<in> set (listAll ?s).
             CHR ''|'' \<notin> set (description n) \<and> CHR 0x0A \<notin> set (description n)"
    unfolding l by simp
  have b: "\<forall>n \<in> set (listAll ?s). sint (taskId n) < 2147483647"
    unfolding l by simp
  from save_then_load [OF h] b obtain s' where
    s': "loadFromFile ToDoData_init (snd (saveToFile ?s True)) = Inr s'"
      "listAll s' = listAll ?s"
      "\<forall>n \<in> set (listAll s'). sint (taskId n) < sint (nextId s')"
    by blast
  from s'(3) have "sint (1 :: i32) < sint (nextId s') \<and> sint (2 :: i32) < sint (nextId s')"
    unfolding s'(2) l by simp
  with s'(1,2) l f show ?thesis
    by auto
qed

theorem save_then_load_differs:
  "listAll (snd (addTask ToDoData_init ''a\<newline>b'' 1)) =
     [\<lparr>taskId = 1, description = ''a\<newline>b'', priority = 1, completed = False\<rparr>] \<and>
   loadFromFile ToDoData_init (snd (saveToFile (snd (addTask ToDoData_init ''a\<newline>b'' 1)) True)) =
     Inr ToDoData_init \<and>
   listAll ToDoData_init = [] \<and>
   listAll (store_after (loadFromFile ToDoData_init (Some ''2147483647|a|1|0\<newline>''))) =
     [\<lparr>taskId = 2147483647, description = ''a'', priority = 1, completed = False\<rparr>] \<and>
   snd (saveToFile (store_after (loadFromFile ToDoData_init (Some ''2147483647|a|1|0\<newline>''))) True) =
     Some ''2147483647|a|1|0\<newline>'' \<and>
   nextId (store_after (loadFromFile ToDoData_init (Some ''2147483647|a|1|0\<newline>''))) = 1 \<and>
   \<not> sint (2147483647 :: i32) < sint (1 :: i32)"
proof -
  let ?s = "snd (addTask ToDoData_init ''a\<newline>b'' 1)"
  have l: "listAll ?s = [\<lparr>taskId = 1, description = ''a\<newline>b'', priority = 1, completed = False\<rparr>]"
    by (simp add: listAll_def addTask_def ToDoData_init_def Let_def)
  have f: "snd (saveToFile ?s True) = Some ''1|a\<newline>b|1|0\<newline>''"
    unfolding saveToFile_def l
    by (simp add: save_line_def show_i32_def show_int_def show_nat.simps digit_char_def)
  have 1: "loadFromFile ToDoData_init (Some ''1|a\<newline>b|1|0\<newline>'') = Inr ToDoData_init"
    by (simp add: loadFromFile_def getlines_def load_line_def find_from_def after_def Let_def)
  have 2: "listAll ToDoData_init = []"
    by (simp add: listAll_def ToDoData_init_def)
  have s2: "store_after (loadFromFile ToDoData_init (Some ''2147483647|a|1|0\<newline>'')) =
            load_node ToDoData_init 2147483647 ''a'' 1 0"
    by (simp add: loadFromFile_def getlines_def load_line_def find_from_def after_def substr_def
        substr_from_def stoi_def isspace_def isdigit_def digit_val_def digits_val_def
        store_after_def Let_def)
  have l2: "listAll (load_node ToDoData_init 2147483647 ''a'' 1 0) =
     [\<lparr>taskId = 2147483647, description = ''a'', priority = 1, completed = False\<rparr>]"
    by (simp add: listAll_def load_node_def ToDoData_init_def Let_def)
  have f2: "snd (saveToFile (load_node ToDoData_init 2147483647 ''a'' 1 0) True) =
            Some ''2147483647|a|1|0\<newline>''"
    unfolding saveToFile_def l2
    by (simp add: save_line_def show_i32_def show_int_def show_nat.simps digit_char_def)
  have n2: "nextId (load_node ToDoData_init 2147483647 ''a'' 1 0) = 1"
    by (simp add: load_node_def max_i32_def ToDoData_init_def Let_def)
  show ?thesis
    unfolding s2 using l f 1 2 l2 f2 n2 by simp
qed

text \<open>
  C6. For a task of the index, \<open>editTask\<close> leaves the priority as it is when the
  priority read is not in 1..5 or cannot be read, and it never clamps. It reports the
  problem when the input cannot be read and when the value is outside 1..5 and not 0;
  the value 0 keeps the priority without any report. A priority in 1..5 is stored. An
  empty new description leaves the description as it is, another one replaces it.
\<close>

theorem editTask_invalid_priority:
  assumes "taskMap s i = Some t"
  shows "(newPrio = None \<or> (\<exists>p. newPrio = Some p \<and> (sint p < 1 \<or> 5 < sint p)) \<longrightarrow>
            priority (nodes (snd (editTask s i newDesc newPrio)) t) = priority (nodes s t)) \<and>
         (newPrio = None \<longrightarrow> InputInvalid \<in> set (fst (editTask s i newDesc newPrio))) \<and>
         (\<forall>p. newPrio = Some p \<and> (sint p < 1 \<or> 5 < sint p) \<and> p \<noteq> 0 \<longrightarrow>
            PriorityInvalid \<in> set (fst (editTask s i newDesc newPrio))) \<and>
         (newPrio = Some 0 \<longrightarrow>
            InputInvalid \<notin> set (fst (editTask s i newDesc newPrio)) \<and>
            PriorityInvalid \<notin> set (fst (editTask s i newDesc newPrio))) \<and>
         (\<forall>p. newPrio = Some p \<and> 1 \<le> sint p \<and> sint p \<le> 5 \<longrightarrow>
            priority (nodes (snd (editTask s i newDesc newPrio)) t) = p) \<and>
         (newDesc = [] \<longrightarrow>
            description (nodes (snd (editTask s i newDesc newPrio)) t) = description (nodes s t)) \<and>
         (newDesc \<noteq> [] \<longrightarrow>
            description (nodes (snd (editTask s i newDesc newPrio)) t) = newDesc)"
  using assms
  by (cases newPrio) (auto simp: editTask_def Let_def)

theorem editTask_invalid_priority_witness:
  "taskMap (snd (addTask ToDoData_init ''a'' 3)) 1 = Some 0 \<and>
   priority (nodes (snd (editTask (snd (addTask ToDoData_init ''a'' 3)) 1 [] (Some 9))) 0) = 3 \<and>
   PriorityInvalid \<in> set (fst (editTask (snd (addTask ToDoData_init ''a'' 3)) 1 [] (Some 9))) \<and>
   description (nodes (snd (editTask (snd (addTask ToDoData_init ''a'' 3)) 1 [] (Some 9))) 0) = ''a''"
proof -
  let ?s = "snd (addTask ToDoData_init ''a'' 3)"
  have 1: "taskMap ?s 1 = Some 0"
    by (simp add: addTask_def ToDoData_init_def Let_def)
  have 2: "nodes ?s 0 = \<lparr>taskId = 1, description = ''a'', priority = 3, completed = False\<rparr>"
    by (simp add: addTask_def ToDoData_init_def Let_def)
  show ?thesis
    using editTask_invalid_priority [OF 1, of "Some 9" "[]"] 1 2 by simp
qed

theorem editTask_zero_not_reported:
  "taskMap (snd (addTask ToDoData_init ''a'' 3)) 1 = Some 0 \<and>
   fst (editTask (snd (addTask ToDoData_init ''a'' 3)) 1 [] (Some 0)) =
     [CurrentDescription ''a'', AskDescription, CurrentPriority 3, AskPriority, TaskUpdated 1] \<and>
   priority (nodes (snd (editTask (snd (addTask ToDoData_init ''a'' 3)) 1 [] (Some 0))) 0) = 3"
  by (simp add: editTask_def addTask_def ToDoData_init_def Let_def)

text \<open>
  C7. With a description that is not empty and a priority outside 1..5, \<open>addTask\<close>
  adds the task, in both variants of the program, and the task it creates has priority 1.
\<close>

theorem addTask_clamps_priority:
  assumes "desc \<noteq> []" and "sint prio < 1 \<or> 5 < sint prio"
  shows "fst (addTask data desc prio) = [TaskAdded (nextId data)] \<and>
         searchTask (snd (addTask data desc prio)) (nextId data) =
           [TaskFound \<lparr>taskId = nextId data, description = desc, priority = 1,
                       completed = False\<rparr>] \<and>
         last (listAll (snd (addTask data desc prio))) =
           \<lparr>taskId = nextId data, description = desc, priority = 1, completed = False\<rparr> \<and>
         fst (addTask_l l desc prio) = [PrioritySetTo1, TaskAdded_l (taskCounter l)] \<and>
         searchTask_l (snd (addTask_l l desc prio)) (taskCounter l) =
           [TaskDetails \<lparr>taskId = taskCounter l, description = desc, priority = 1,
                         completed = False\<rparr>] \<and>
         last (listAll_l (snd (addTask_l l desc prio))) =
           \<lparr>taskId = taskCounter l, description = desc, priority = 1, completed = False\<rparr>"
  using assms
  by (simp add: addTask_def searchTask_def listAll_def addTask_l_def searchTask_l_def
      listAll_l_def Let_def)

theorem addTask_clamps_priority_witness:
  "searchTask (snd (addTask ToDoData_init ''d'' 0)) 1 =
     [TaskFound \<lparr>taskId = 1, description = ''d'', priority = 1, completed = False\<rparr>] \<and>
   searchTask (snd (addTask ToDoData_init ''d'' 9)) 1 =
     [TaskFound \<lparr>taskId = 1, description = ''d'', priority = 1, completed = False\<rparr>] \<and>
   searchTask_l (snd (addTask_l ToDoList_init ''d'' 0)) 1 =
     [TaskDetails \<lparr>taskId = 1, description = ''d'', priority = 1, completed = False\<rparr>] \<and>
   searchTask_l (snd (addTask_l ToDoList_init ''d'' 9)) 1 =
     [TaskDetails \<lparr>taskId = 1, description = ''d'', priority = 1, completed = False\<rparr>]"
proof -
  have n: "nextId ToDoData_init = 1" "taskCounter ToDoList_init = 1"
    by (simp_all add: ToDoData_init_def ToDoList_init_def)
  have d: "''d'' \<noteq> []" by simp
  have p0: "sint (0::i32) < 1 \<or> 5 < sint (0::i32)" by simp
  have p9: "sint (9::i32) < 1 \<or> 5 < sint (9::i32)" by simp
  show ?thesis
    using addTask_clamps_priority [OF d p0, of ToDoData_init ToDoList_init]
      addTask_clamps_priority [OF d p9, of ToDoData_init ToDoList_init] n
    by simp
qed

text \<open>
  C8. \<open>addTask\<close> refuses a description (the report that the description cannot be empty,
  the spec's InvalidInput) exactly when the description is empty, and then the store is the
  one before the call: size, next identifier, chain and index included. The same holds in
  the class variant.
\<close>

theorem addTask_empty_description:
  "(fst (addTask data desc prio) = [DescriptionEmpty] \<longleftrightarrow> desc = []) \<and>
   (desc = [] \<longrightarrow> snd (addTask data desc prio) = data) \<and>
   (fst (addTask_l l desc prio) = [DescriptionEmpty_l] \<longleftrightarrow> desc = []) \<and>
   (desc = [] \<longrightarrow> snd (addTask_l l desc prio) = l)"
  by (simp add: addTask_def addTask_l_def Let_def)

theorem addTask_empty_description_witness:
  "fst (addTask ToDoData_init [] 3) = [DescriptionEmpty] \<and>
   snd (addTask ToDoData_init [] 3) = ToDoData_init \<and>
   fst (addTask ToDoData_init ''a'' 3) \<noteq> [DescriptionEmpty] \<and>
   fst (addTask_l ToDoList_init [] 3) = [DescriptionEmpty_l] \<and>
   snd (addTask_l ToDoList_init [] 3) = ToDoList_init \<and>
   fst (addTask_l ToDoList_init ''a'' 3) \<noteq> [DescriptionEmpty_l]"
  using addTask_empty_description [of ToDoData_init "[]" 3 ToDoList_init]
    addTask_empty_description [of ToDoData_init "''a''" 3 ToDoList_init]
  by simp

text \<open>
  C9. \<open>undoDelete\<close> reports that there is nothing to undo (the spec's EmptyHistory)
  exactly when the stack of deleted tasks is empty, and then the store is the one before
  the call.
\<close>

theorem undoDelete_empty_history:
  "(fst (undoDelete data) = [NothingToUndo] \<longleftrightarrow> deletedStack data = []) \<and>
   (deletedStack data = [] \<longrightarrow> snd (undoDelete data) = data)"
  by (simp add: undoDelete_def Let_def split: list.splits)

theorem undoDelete_empty_history_witness:
  "deletedStack ToDoData_init = [] \<and>
   fst (undoDelete ToDoData_init) = [NothingToUndo] \<and>
   snd (undoDelete ToDoData_init) = ToDoData_init \<and>
   fst (undoDelete (snd (deleteTask (snd (addTask ToDoData_init ''a'' 1)) 1))) \<noteq> [NothingToUndo]"
proof -
  have 1: "deletedStack ToDoData_init = []"
    by (simp add: ToDoData_init_def)
  have 2: "deletedStack (snd (deleteTask (snd (addTask ToDoData_init ''a'' 1)) 1)) \<noteq> []"
    by (simp add: deleteTask_def addTask_def ToDoData_init_def Let_def)
  show ?thesis
    using undoDelete_empty_history [of ToDoData_init]
      undoDelete_empty_history [of "snd (deleteTask (snd (addTask ToDoData_init ''a'' 1)) 1)"]
      1 2
    by simp
qed

text \<open>
  C10. Loading is not total. A line is skipped exactly when it has fewer than three
  delimiters. A line with three delimiters leaves the loop with an exception as soon as
  the identifier, the priority or the completion flag is not read as an integer by
  \<open>stoi\<close>. When that happens after some lines, the store keeps the tasks of those lines.
\<close>

theorem loadFromFile_not_total:
  "(load_line data line = Inr data \<longleftrightarrow> bars line < 3) \<and>
   (CHR ''|'' \<notin> set f0 \<and> CHR ''|'' \<notin> set f1 \<and> CHR ''|'' \<notin> set f2 \<longrightarrow>
      ((\<exists>e. load_line data (f0 @ CHR ''|'' # f1 @ CHR ''|'' # f2 @ CHR ''|'' # f3) = Inl e) \<longleftrightarrow>
       (\<exists>e. stoi f0 = Inl e) \<or> (\<exists>e. stoi f2 = Inl e) \<or> (\<exists>e. stoi f3 = Inl e))) \<and>
   (load_lines data ls = Inr data' \<and> load_line data' bad = Inl e \<longrightarrow>
      load_lines data (ls @ bad # rest) = Inl (e, data'))"
proof (intro conjI impI)
  show "load_line data line = Inr data \<longleftrightarrow> bars line < 3"
    using load_line_few_bars [of line data] load_line_many_bars [of line data]
    by (cases "bars line < 3") auto
next
  assume "CHR ''|'' \<notin> set f0 \<and> CHR ''|'' \<notin> set f1 \<and> CHR ''|'' \<notin> set f2"
  then have "load_line data (f0 @ CHR ''|'' # f1 @ CHR ''|'' # f2 @ CHR ''|'' # f3) =
     (case stoi f0 of
        Inl e \<Rightarrow> Inl e
      | Inr i \<Rightarrow>
          (case stoi f2 of
             Inl e \<Rightarrow> Inl e
           | Inr p \<Rightarrow>
               (case stoi f3 of
                  Inl e \<Rightarrow> Inl e
                | Inr d \<Rightarrow> Inr (load_node data i f1 p d))))"
    by (simp add: load_line_fields)
  then show "(\<exists>e. load_line data (f0 @ CHR ''|'' # f1 @ CHR ''|'' # f2 @ CHR ''|'' # f3) = Inl e) \<longleftrightarrow>
       (\<exists>e. stoi f0 = Inl e) \<or> (\<exists>e. stoi f2 = Inl e) \<or> (\<exists>e. stoi f3 = Inl e)"
    by (simp split: sum.splits)
next
  assume "load_lines data ls = Inr data' \<and> load_line data' bad = Inl e"
  then show "load_lines data (ls @ bad # rest) = Inl (e, data')"
    by (simp add: load_lines_append)
qed

theorem loadFromFile_not_total_witness:
  "load_line ToDoData_init ''x|y|z'' = Inr ToDoData_init \<and>
   load_line ToDoData_init ''abc|d|2|0'' = Inl invalid_argument \<and>
   loadFromFile ToDoData_init (Some ''1|d|2|0\<newline>abc|d|2|0\<newline>3|e|1|1\<newline>'') =
     Inl (invalid_argument, load_node ToDoData_init 1 ''d'' 2 0) \<and>
   listAll (load_node ToDoData_init 1 ''d'' 2 0) =
     [\<lparr>taskId = 1, description = ''d'', priority = 2, completed = False\<rparr>]"
proof -
  have b: "bars ''x|y|z'' < 3"
    by (simp add: bars_def)
  have f: "CHR ''|'' \<notin> set ''abc'' \<and> CHR ''|'' \<notin> set ''d'' \<and> CHR ''|'' \<notin> set ''2''"
    by simp
  have s: "stoi ''abc'' = Inl invalid_argument"
    by (simp add: stoi_def isspace_def isdigit_def Let_def)
  have l1: "load_lines ToDoData_init [''1|d|2|0''] = Inr (load_node ToDoData_init 1 ''d'' 2 0)"
    by (simp add: load_line_def find_from_def after_def substr_def substr_from_def stoi_def
        isspace_def isdigit_def digit_val_def digits_val_def Let_def)
  have l2: "load_line (load_node ToDoData_init 1 ''d'' 2 0) ''abc|d|2|0'' = Inl invalid_argument"
    by (simp add: load_line_def find_from_def after_def substr_def substr_from_def stoi_def
        isspace_def isdigit_def Let_def)
  have l3: "load_line ToDoData_init ''abc|d|2|0'' = Inl invalid_argument"
    by (simp add: load_line_def find_from_def after_def substr_def substr_from_def stoi_def
        isspace_def isdigit_def Let_def)
  have g: "getlines ''1|d|2|0\<newline>abc|d|2|0\<newline>3|e|1|1\<newline>'' =
           [''1|d|2|0''] @ ''abc|d|2|0'' # [''3|e|1|1'']"
    by (simp add: getlines_def)
  have n: "listAll (load_node ToDoData_init 1 ''d'' 2 0) =
     [\<lparr>taskId = 1, description = ''d'', priority = 2, completed = False\<rparr>]"
    by (simp add: load_node_def listAll_def ToDoData_init_def Let_def)
  show ?thesis
    using loadFromFile_not_total [of ToDoData_init "''x|y|z''" "''abc''" "''d''" "''2''" "''0''"
        "[''1|d|2|0'']" "load_node ToDoData_init 1 ''d'' 2 0" "''abc|d|2|0''" invalid_argument
        "[''3|e|1|1'']"]
      b f s l1 l2 l3 n
    by (simp add: loadFromFile_def g del: load_lines.simps)
qed

end
